theory Spec2Isabelle
  imports Main "HOL-Library.AList" "HOL-Library.Sublist"
begin

section \<open>JSON documents and the Python operations applied to them\<close>

text \<open>
  The application keeps its state in two JSON files and reads game data from a JSON web
  service, so every value it handles is whatever \<^verbatim>\<open>json.load\<close> produced. The model keeps
  that dynamic typing: one datatype of JSON values, and each Python operation of
  \<^verbatim>\<open>app.py\<close> as a function that returns the exception Python raises on a value of the
  wrong shape. An object is an association list in insertion order, as a Python dict is.
  A character stands for the code point of the same number, so the strings of the model
  are the Python strings over code points below 256.
\<close>

datatype pyfloat = FFinite int int | FInf bool | FNaN

datatype json =
    JNull
  | JBool bool
  | JInt int
  | JFloat pyfloat
  | JStr string
  | JArr "json list"
  | JObj "(string \<times> json) list"

datatype py_error =
    KeyError | IndexError | TypeError | AttributeError
  | JSONDecodeError | UnicodeDecodeError | RecursionError | ValueError

text \<open>Sequencing of two steps, the second of which runs only when the first did not raise.\<close>

definition and_then :: "py_error + 'a \<Rightarrow> ('a \<Rightarrow> py_error + 'b) \<Rightarrow> py_error + 'b" where
  "and_then r f = (case r of Inl e \<Rightarrow> Inl e | Inr x \<Rightarrow> f x)"

text \<open>Truth value of an object, as \<^verbatim>\<open>if x\<close> and \<^verbatim>\<open>not x\<close> test it.
  \<open>FFinite m e\<close> is the float \<open>m * 2 ^ e\<close>.\<close>

fun truthy :: "json \<Rightarrow> bool" where
  "truthy JNull = False"
| "truthy (JBool b) = b"
| "truthy (JInt n) = (n \<noteq> 0)"
| "truthy (JFloat (FFinite m e)) = (m \<noteq> 0)"
| "truthy (JFloat (FInf s)) = True"
| "truthy (JFloat FNaN) = True"
| "truthy (JStr s) = (s \<noteq> [])"
| "truthy (JArr xs) = (xs \<noteq> [])"
| "truthy (JObj kvs) = (kvs \<noteq> [])"

text \<open>\<^verbatim>\<open>x[k]\<close> for a string \<open>k\<close>: only a dict can be subscripted by a string.\<close>

fun getitem :: "json \<Rightarrow> string \<Rightarrow> py_error + json" where
  "getitem (JObj kvs) k = (case map_of kvs k of None \<Rightarrow> Inl KeyError | Some v \<Rightarrow> Inr v)"
| "getitem _ k = Inl TypeError"

text \<open>\<^verbatim>\<open>x[0]\<close>: the first element of a list or string; a dict loaded from JSON has string
  keys only, so the key \<open>0\<close> is never present.\<close>

fun getitem0 :: "json \<Rightarrow> py_error + json" where
  "getitem0 (JArr xs) = (case xs of [] \<Rightarrow> Inl IndexError | x # _ \<Rightarrow> Inr x)"
| "getitem0 (JStr s) = (case s of [] \<Rightarrow> Inl IndexError | c # _ \<Rightarrow> Inr (JStr [c]))"
| "getitem0 (JObj kvs) = Inl KeyError"
| "getitem0 _ = Inl TypeError"

text \<open>\<^verbatim>\<open>x.get(k, d)\<close>: a method of dicts only.\<close>

fun py_get :: "json \<Rightarrow> string \<Rightarrow> json \<Rightarrow> py_error + json" where
  "py_get (JObj kvs) k d = Inr (case map_of kvs k of None \<Rightarrow> d | Some v \<Rightarrow> v)"
| "py_get _ k d = Inl AttributeError"

text \<open>\<^verbatim>\<open>for y in x\<close>: the elements of a list, the keys of a dict, the characters of a
  string.\<close>

fun py_iter :: "json \<Rightarrow> py_error + json list" where
  "py_iter (JArr xs) = Inr xs"
| "py_iter (JObj kvs) = Inr (map (\<lambda>kv. JStr (fst kv)) kvs)"
| "py_iter (JStr s) = Inr (map (\<lambda>c. JStr [c]) s)"
| "py_iter _ = Inl TypeError"

fun is_substring :: "string \<Rightarrow> string \<Rightarrow> bool" where
  "is_substring p [] = (p = [])"
| "is_substring p (c # cs) = (prefix p (c # cs) \<or> is_substring p cs)"

text \<open>\<^verbatim>\<open>k in x\<close> for a string \<open>k\<close>: key of a dict, element of a list, substring of a
  string.\<close>

fun py_in :: "string \<Rightarrow> json \<Rightarrow> py_error + bool" where
  "py_in k (JObj kvs) = Inr (k \<in> set (map fst kvs))"
| "py_in k (JArr xs) = Inr (JStr k \<in> set xs)"
| "py_in k (JStr s) = Inr (is_substring k s)"
| "py_in k _ = Inl TypeError"

text \<open>\<^verbatim>\<open>x[k] = v\<close> for a string \<open>k\<close>: replaces the value in place or appends the key.\<close>

fun setitem :: "json \<Rightarrow> string \<Rightarrow> json \<Rightarrow> py_error + json" where
  "setitem (JObj kvs) k v = Inr (JObj (AList.update k v kvs))"
| "setitem _ k v = Inl TypeError"

text \<open>Decimal digits of a number, for \<^verbatim>\<open>str\<close> of an integer.\<close>

function digits :: "nat \<Rightarrow> string" where
  "digits n = (if n < 10 then [char_of (48 + n)] else digits (n div 10) @ [char_of (48 + n mod 10)])"
  by pat_completeness auto
termination
  by (relation "measure id") auto

definition str_int :: "int \<Rightarrow> string" where
  "str_int i = (if i < 0 then CHR ''-'' # digits (nat (- i)) else digits (nat i))"

text \<open>
  \<^verbatim>\<open>str(x)\<close>. On a string, an integer, a boolean and \<^verbatim>\<open>None\<close> it is written out. On a
  float, a list and a dict it is Python's \<^verbatim>\<open>repr\<close>, which the model takes as the
  parameter \<open>repr\<close>: every theorem below holds for every such function.
\<close>

fun py_str :: "(json \<Rightarrow> string) \<Rightarrow> json \<Rightarrow> string" where
  "py_str repr (JStr s) = s"
| "py_str repr (JInt i) = str_int i"
| "py_str repr (JBool b) = (if b then ''True'' else ''False'')"
| "py_str repr JNull = ''None''"
| "py_str repr j = repr j"

text \<open>An instance of the parameter for evaluating the model on concrete documents whose
  identifiers are strings or integers, where it is never consulted.\<close>

definition no_repr :: "json \<Rightarrow> string" where
  "no_repr j = []"

section \<open>Winner resolver\<close>

text \<open>
  \<^verbatim>\<open>determine_winners(games)\<close>. The dict \<^verbatim>\<open>winners\<close> is an association list from game
  id to team id. The body of the inner loop, for one competitor: the right-hand side of
  the assignment is evaluated before the key.
\<close>

definition competitor_step ::
  "(json \<Rightarrow> string) \<Rightarrow> json \<Rightarrow> (string \<times> json) list \<Rightarrow> json \<Rightarrow> py_error + (string \<times> json) list" where
  "competitor_step repr event winners competitor =
     and_then (py_get competitor ''winner'' (JBool False)) (\<lambda>flag.
       if truthy flag then
         and_then (getitem competitor ''team'') (\<lambda>team.
         and_then (getitem team ''id'') (\<lambda>tid.
         and_then (getitem event ''id'') (\<lambda>gid.
           Inr (AList.update (py_str repr gid) tid winners))))
       else Inr winners)"

fun competitors_loop ::
  "(json \<Rightarrow> string) \<Rightarrow> json \<Rightarrow> (string \<times> json) list \<Rightarrow> json list \<Rightarrow> py_error + (string \<times> json) list" where
  "competitors_loop repr event winners [] = Inr winners"
| "competitors_loop repr event winners (competitor # rest) =
     (case competitor_step repr event winners competitor of
        Inl e \<Rightarrow> Inl e
      | Inr winners' \<Rightarrow> competitors_loop repr event winners' rest)"

definition competition_of :: "json \<Rightarrow> py_error + json" where
  "competition_of event = and_then (getitem event ''competitions'') getitem0"

definition completed_of :: "json \<Rightarrow> py_error + json" where
  "completed_of competition =
     and_then (getitem competition ''status'') (\<lambda>status.
     and_then (getitem status ''type'') (\<lambda>ty.
       getitem ty ''completed''))"

text \<open>The body of the outer loop, for one event.\<close>

definition event_step ::
  "(json \<Rightarrow> string) \<Rightarrow> (string \<times> json) list \<Rightarrow> json \<Rightarrow> py_error + (string \<times> json) list" where
  "event_step repr winners event =
     and_then (competition_of event) (\<lambda>competition.
     and_then (completed_of competition) (\<lambda>completed.
       if truthy completed then
         and_then (getitem competition ''competitors'') (\<lambda>cs.
         and_then (py_iter cs) (\<lambda>competitors.
           competitors_loop repr event winners competitors))
       else Inr winners))"

fun events_loop ::
  "(json \<Rightarrow> string) \<Rightarrow> (string \<times> json) list \<Rightarrow> json list \<Rightarrow> py_error + (string \<times> json) list" where
  "events_loop repr winners [] = Inr winners"
| "events_loop repr winners (event # rest) =
     (case event_step repr winners event of
        Inl e \<Rightarrow> Inl e
      | Inr winners' \<Rightarrow> events_loop repr winners' rest)"

definition determine_winners :: "(json \<Rightarrow> string) \<Rightarrow> json \<Rightarrow> py_error + (string \<times> json) list" where
  "determine_winners repr games =
     (if \<not> truthy games then Inr []
      else and_then (py_in ''events'' games) (\<lambda>present.
        if \<not> present then Inr []
        else and_then (py_get games ''events'' (JArr [])) (\<lambda>evs.
             and_then (py_iter evs) (\<lambda>events.
               events_loop repr [] events))))"

text \<open>What the claims about the resolver speak of, read off a schedule with the same
  accessors: the events it iterates over, the key an event is recorded under, whether an
  event is marked completed, its competitors, whether a competitor is flagged as winner
  and the team id it carries.\<close>

definition schedule_events :: "json \<Rightarrow> json list" where
  "schedule_events games =
     (case and_then (py_get games ''events'' (JArr [])) py_iter of
        Inl e \<Rightarrow> [] | Inr events \<Rightarrow> events)"

definition game_key :: "(json \<Rightarrow> string) \<Rightarrow> json \<Rightarrow> string option" where
  "game_key repr event =
     (case getitem event ''id'' of Inl e \<Rightarrow> None | Inr gid \<Rightarrow> Some (py_str repr gid))"

definition marked_completed :: "json \<Rightarrow> bool" where
  "marked_completed event =
     (case and_then (competition_of event) completed_of of
        Inl e \<Rightarrow> False | Inr c \<Rightarrow> truthy c)"

definition event_competitors :: "json \<Rightarrow> json list" where
  "event_competitors event =
     (case and_then (competition_of event)
             (\<lambda>c. and_then (getitem c ''competitors'') py_iter) of
        Inl e \<Rightarrow> [] | Inr cs \<Rightarrow> cs)"

definition flagged_winner :: "json \<Rightarrow> bool" where
  "flagged_winner competitor =
     (case py_get competitor ''winner'' (JBool False) of
        Inl e \<Rightarrow> False | Inr flag \<Rightarrow> truthy flag)"

definition team_id_of :: "json \<Rightarrow> py_error + json" where
  "team_id_of competitor = and_then (getitem competitor ''team'') (\<lambda>team. getitem team ''id'')"

text \<open>Game \<open>k\<close> is decided for team \<open>t\<close> by an event: the event carries that id, is marked
  completed and has a competitor flagged as winner whose team id is \<open>t\<close>.\<close>

definition decided_by :: "(json \<Rightarrow> string) \<Rightarrow> string \<Rightarrow> json \<Rightarrow> json \<Rightarrow> bool" where
  "decided_by repr k t event \<longleftrightarrow>
     game_key repr event = Some k \<and> marked_completed event \<and>
     (\<exists>c \<in> set (event_competitors event). flagged_winner c \<and> team_id_of c = Inr t)"

text \<open>A schedule without games: a document that is false as a condition, a dict without
  the key \<^verbatim>\<open>events\<close>, or one whose events iterate to nothing.\<close>

definition empty_schedule :: "json \<Rightarrow> bool" where
  "empty_schedule games \<longleftrightarrow>
     \<not> truthy games \<or>
     (case games of
        JObj kvs \<Rightarrow>
          (case map_of kvs ''events'' of None \<Rightarrow> True | Some v \<Rightarrow> py_iter v = Inr [])
      | _ \<Rightarrow> False)"

text \<open>A schedule of the shape the web service documents: each event has an id and a first
  competition with a completion status and a list of competitors, each a dict with a team
  id.\<close>

definition well_formed_competitor :: "json \<Rightarrow> bool" where
  "well_formed_competitor competitor =
     (case competitor of
        JObj kvs \<Rightarrow> (case team_id_of competitor of Inl e \<Rightarrow> False | Inr t \<Rightarrow> True)
      | _ \<Rightarrow> False)"

definition well_formed_event :: "json \<Rightarrow> bool" where
  "well_formed_event event =
     (case getitem event ''id'' of
        Inl e \<Rightarrow> False
      | Inr gid \<Rightarrow>
         (case competition_of event of
            Inl e \<Rightarrow> False
          | Inr competition \<Rightarrow>
             (case completed_of competition of
                Inl e \<Rightarrow> False
              | Inr c \<Rightarrow>
                 (case getitem competition ''competitors'' of
                    Inr (JArr cs) \<Rightarrow> list_all well_formed_competitor cs
                  | _ \<Rightarrow> False))))"

definition well_formed_schedule :: "json \<Rightarrow> bool" where
  "well_formed_schedule games =
     (case games of
        JObj kvs \<Rightarrow>
          (case map_of kvs ''events'' of
             Some (JArr events) \<Rightarrow> list_all well_formed_event events
           | _ \<Rightarrow> False)
      | _ \<Rightarrow> False)"

section \<open>Record store\<close>

text \<open>
  The two stores are files. A file absent from the list does not exist. A file that
  exists is recorded by what \<^verbatim>\<open>json.load\<close> of line 22 makes of its content: text that
  is not JSON (\<^verbatim>\<open>JSONDecodeError\<close>), bytes that are no text in the encoding the file is
  opened with (\<^verbatim>\<open>UnicodeDecodeError\<close>, from the read inside \<^verbatim>\<open>json.load\<close>), JSON
  nested deeper than the recursion limit of the interpreter (\<^verbatim>\<open>RecursionError\<close>), JSON
  with an integer literal longer than the digit limit of the interpreter
  (\<^verbatim>\<open>ValueError\<close>), or a document. Failures of the operating system are outside the
  model. The state also holds what else the handlers change: the log of the documents
  handed to \<^verbatim>\<open>save_json\<close> (oldest first), the user of the session and the flashed
  messages.
\<close>

datatype file_content = Unparsable | Undecodable | TooDeep | HugeInteger | Parsable json

datatype flash_msg =
    RequiredMsg
  | WelcomeMsg string
  | IncorrectMsg
  | LockedMsg nat nat
  | SavedMsg nat

record state =
  files :: "(string \<times> file_content) list"
  saved :: "(string \<times> json) list"
  session_user :: "string option"
  flashed :: "flash_msg list"

definition PICKS_FILE :: string where
  "PICKS_FILE = ''picks.json''"

definition USERS_FILE :: string where
  "USERS_FILE = ''users.json''"

fun json_load :: "file_content \<Rightarrow> py_error + json" where
  "json_load Unparsable = Inl JSONDecodeError"
| "json_load Undecodable = Inl UnicodeDecodeError"
| "json_load TooDeep = Inl RecursionError"
| "json_load HugeInteger = Inl ValueError"
| "json_load (Parsable doc) = Inr doc"

text \<open>\<^verbatim>\<open>load_json(filename)\<close>: the handler of line 23 catches \<^verbatim>\<open>JSONDecodeError\<close> and
  nothing else.\<close>

definition load_json :: "string \<Rightarrow> state \<Rightarrow> py_error + json" where
  "load_json filename s =
     (case map_of (files s) filename of
        None \<Rightarrow> Inr (JObj [])
      | Some content \<Rightarrow>
         (case json_load content of
            Inl JSONDecodeError \<Rightarrow> Inr (JObj [])
          | Inl e \<Rightarrow> Inl e
          | Inr doc \<Rightarrow> Inr doc))"

definition save_json :: "string \<Rightarrow> json \<Rightarrow> state \<Rightarrow> state" where
  "save_json filename data s =
     s\<lparr>files := AList.update filename (Parsable data) (files s),
       saved := saved s @ [(filename, data)]\<rparr>"

definition flash :: "flash_msg \<Rightarrow> state \<Rightarrow> state" where
  "flash msg s = s\<lparr>flashed := flashed s @ [msg]\<rparr>"

section \<open>Authentication\<close>

text \<open>\<^verbatim>\<open>str.strip()\<close>: the white space among the code points below 256.\<close>

definition is_space :: "char \<Rightarrow> bool" where
  "is_space c =
     (let n = (of_char c :: nat)
      in (9 \<le> n \<and> n \<le> 13) \<or> (28 \<le> n \<and> n \<le> 32) \<or> n = 133 \<or> n = 160)"

definition strip :: "string \<Rightarrow> string" where
  "strip s = rev (dropWhile is_space (rev (dropWhile is_space s)))"

datatype response = Redirect string | RenderWeek nat json json int

text \<open>
  \<^verbatim>\<open>login()\<close>. The form is the list of submitted fields, of which \<^verbatim>\<open>request.form.get\<close>
  reads the first with the name. The two functions of \<^verbatim>\<open>werkzeug.security\<close> are
  parameters: \<open>generate_password_hash\<close> gives the hash to store,
  \<open>check_password_hash\<close> verifies a password against a stored value and may raise on
  a stored value that is no hash.
\<close>

definition login ::
  "(string \<Rightarrow> string) \<Rightarrow> (json \<Rightarrow> string \<Rightarrow> py_error + bool) \<Rightarrow> (string \<times> string) list \<Rightarrow> state
     \<Rightarrow> py_error + (response \<times> state)" where
  "login generate_password_hash check_password_hash form s =
     (let username = strip (case map_of form ''username'' of None \<Rightarrow> [] | Some v \<Rightarrow> v);
          password_field = map_of form ''password''
      in case password_field of
           None \<Rightarrow> Inr (Redirect ''/'', flash RequiredMsg s)
         | Some password \<Rightarrow>
            if username = [] \<or> password = [] then Inr (Redirect ''/'', flash RequiredMsg s)
            else
              and_then (load_json USERS_FILE s) (\<lambda>users.
              and_then (py_in username users) (\<lambda>known.
                if \<not> known then
                  and_then (setitem users username (JStr (generate_password_hash password)))
                    (\<lambda>users1.
                      Inr (Redirect ''/'',
                           flash (WelcomeMsg username)
                             ((save_json USERS_FILE users1 s)\<lparr>session_user := Some username\<rparr>)))
                else
                  and_then (getitem users username) (\<lambda>stored.
                  and_then (check_password_hash stored password) (\<lambda>ok.
                    if ok then Inr (Redirect ''/'', s\<lparr>session_user := Some username\<rparr>)
                    else Inr (Redirect ''/'', flash IncorrectMsg s))))))"

text \<open>The user name \<^verbatim>\<open>login\<close> works with: the first submitted field of that name,
  or the empty string, stripped.\<close>

definition submitted_username :: "(string \<times> string) list \<Rightarrow> string" where
  "submitted_username form = strip (case map_of form ''username'' of None \<Rightarrow> [] | Some v \<Rightarrow> v)"

text \<open>An instance of the two parameters for evaluating \<open>login\<close> on concrete requests.\<close>

definition sample_hash :: "string \<Rightarrow> string" where
  "sample_hash password = ''hash$'' @ password"

fun sample_check :: "json \<Rightarrow> string \<Rightarrow> py_error + bool" where
  "sample_check (JStr h) password = Inr (h = sample_hash password)"
| "sample_check _ password = Inl AttributeError"

section \<open>Pick submission\<close>

datatype http_method = GET | POST

text \<open>Lines 139 to 143 of \<^verbatim>\<open>week_view\<close>: the entries of the week and of the user in the
  week are created empty when absent.\<close>

definition ensure_entries :: "string \<Rightarrow> string \<Rightarrow> json \<Rightarrow> py_error + json" where
  "ensure_entries week_str user all_data =
     and_then (py_in week_str all_data) (\<lambda>has_week.
     and_then (if has_week then Inr all_data else setitem all_data week_str (JObj []))
       (\<lambda>all_data1.
     and_then (getitem all_data1 week_str) (\<lambda>week_data.
     and_then (py_in user week_data) (\<lambda>has_user.
       if has_user then Inr all_data1
       else and_then (setitem week_data user (JObj [])) (\<lambda>week_data1.
              setitem all_data1 week_str week_data1)))))"

text \<open>
  The kickoff map. A time is an integer (the microseconds since the epoch, say);
  \<open>strptime\<close> is the parse of \<^verbatim>\<open>datetime.strptime\<close> with the format of the source,
  \<open>None\<close> where it raises \<^verbatim>\<open>ValueError\<close>, the one exception the loop catches.
\<close>

definition start_time_step ::
  "(json \<Rightarrow> string) \<Rightarrow> (string \<Rightarrow> int option) \<Rightarrow> (string \<times> int) list \<Rightarrow> json
     \<Rightarrow> py_error + (string \<times> int) list" where
  "start_time_step repr strptime game_start_times event =
     and_then (getitem event ''date'') (\<lambda>date.
       case date of
         JStr d \<Rightarrow>
           (case strptime d of
              None \<Rightarrow> Inr game_start_times
            | Some start_time \<Rightarrow>
               and_then (getitem event ''id'') (\<lambda>gid.
                 Inr (AList.update (py_str repr gid) start_time game_start_times)))
       | _ \<Rightarrow> Inl TypeError)"

fun start_times_loop ::
  "(json \<Rightarrow> string) \<Rightarrow> (string \<Rightarrow> int option) \<Rightarrow> (string \<times> int) list \<Rightarrow> json list
     \<Rightarrow> py_error + (string \<times> int) list" where
  "start_times_loop repr strptime game_start_times [] = Inr game_start_times"
| "start_times_loop repr strptime game_start_times (event # rest) =
     (case start_time_step repr strptime game_start_times event of
        Inl e \<Rightarrow> Inl e
      | Inr game_start_times' \<Rightarrow> start_times_loop repr strptime game_start_times' rest)"

definition game_start_times ::
  "(json \<Rightarrow> string) \<Rightarrow> (string \<Rightarrow> int option) \<Rightarrow> json \<Rightarrow> py_error + (string \<times> int) list" where
  "game_start_times repr strptime schedule =
     and_then (py_get schedule ''events'' (JArr [])) (\<lambda>evs.
     and_then (py_iter evs) (\<lambda>events.
       start_times_loop repr strptime [] events))"

text \<open>The test of line 161, \<^verbatim>\<open>not kickoff or now < kickoff\<close>: a \<^verbatim>\<open>datetime\<close> is never
  false as a condition, so \<^verbatim>\<open>not kickoff\<close> holds exactly when the game has no entry.\<close>

definition pick_open :: "(string \<times> int) list \<Rightarrow> int \<Rightarrow> string \<Rightarrow> bool" where
  "pick_open kickoffs now game_id =
     (case map_of kickoffs game_id of
        None \<Rightarrow> True
      | Some kickoff \<Rightarrow> now < kickoff)"

text \<open>Line 162, \<^verbatim>\<open>all_data[week_str][user][game_id] = team_id\<close>: the assignment changes
  the innermost dict in place, so the model rebuilds the two dicts around it.\<close>

definition store_pick :: "string \<Rightarrow> string \<Rightarrow> string \<Rightarrow> string \<Rightarrow> json \<Rightarrow> py_error + json" where
  "store_pick week_str user game_id team_id all_data =
     and_then (getitem all_data week_str) (\<lambda>week_data.
     and_then (getitem week_data user) (\<lambda>user_picks.
     and_then (setitem user_picks game_id (JStr team_id)) (\<lambda>user_picks1.
     and_then (setitem week_data user user_picks1) (\<lambda>week_data1.
       setitem all_data week_str week_data1))))"

fun picks_loop ::
  "(string \<times> int) list \<Rightarrow> int \<Rightarrow> string \<Rightarrow> string \<Rightarrow> json \<Rightarrow> nat \<Rightarrow> nat \<Rightarrow> (string \<times> string) list
     \<Rightarrow> py_error + (json \<times> nat \<times> nat)" where
  "picks_loop kickoffs now week_str user all_data saved_count blocked_count [] =
     Inr (all_data, saved_count, blocked_count)"
| "picks_loop kickoffs now week_str user all_data saved_count blocked_count
     ((game_id, team_id) # rest) =
     (if pick_open kickoffs now game_id then
        (case store_pick week_str user game_id team_id all_data of
           Inl e \<Rightarrow> Inl e
         | Inr all_data' \<Rightarrow>
             picks_loop kickoffs now week_str user all_data' (saved_count + 1)
               blocked_count rest)
      else
        picks_loop kickoffs now week_str user all_data saved_count
          (blocked_count + 1) rest)"

text \<open>\<^verbatim>\<open>request.form.items()\<close> gives each field name once, with its first value:
  \<open>AList.clearjunk\<close> of the submitted fields.\<close>

definition form_items :: "(string \<times> string) list \<Rightarrow> (string \<times> string) list" where
  "form_items form = AList.clearjunk form"

text \<open>Lines 149 to 165, the part of \<^verbatim>\<open>week_view\<close> the specification calls submit: the
  merged document and the two counts.\<close>

definition submit_picks ::
  "(json \<Rightarrow> string) \<Rightarrow> (string \<Rightarrow> int option) \<Rightarrow> string \<Rightarrow> string \<Rightarrow> json
     \<Rightarrow> (string \<times> string) list \<Rightarrow> json \<Rightarrow> int \<Rightarrow> py_error + (json \<times> nat \<times> nat)" where
  "submit_picks repr strptime week_str user all_data form schedule now =
     and_then (game_start_times repr strptime schedule) (\<lambda>gst.
       picks_loop gst now week_str user all_data 0 0 (form_items form))"

text \<open>
  \<^verbatim>\<open>week_view(week)\<close>. The schedule is what \<^verbatim>\<open>get_espn_schedule(week)\<close> returned and
  \<open>now\<close> the time read after it. An exception leaves the state as it was: the handler
  writes only after its last step that can raise.
\<close>

definition week_view ::
  "(json \<Rightarrow> string) \<Rightarrow> (string \<Rightarrow> int option) \<Rightarrow> nat \<Rightarrow> http_method \<Rightarrow> (string \<times> string) list
     \<Rightarrow> json \<Rightarrow> int \<Rightarrow> state \<Rightarrow> py_error + (response \<times> state)" where
  "week_view repr strptime week method form schedule now s =
     (case session_user s of
        None \<Rightarrow> Inr (Redirect ''/'', s)
      | Some user \<Rightarrow>
         (let week_str = str_int (int week) in
          and_then (load_json PICKS_FILE s) (\<lambda>all_data0.
          and_then (ensure_entries week_str user all_data0) (\<lambda>all_data.
            if method = POST then
              and_then (submit_picks repr strptime week_str user all_data form schedule now)
                (\<lambda>(all_data1, saved_count, blocked_count).
                  Inr (Redirect (''/week/'' @ week_str),
                       flash (if blocked_count > 0 then LockedMsg saved_count blocked_count
                              else SavedMsg week)
                         (save_json PICKS_FILE all_data1 s)))
            else
              and_then (getitem all_data week_str) (\<lambda>week_data.
              and_then (py_get week_data user (JObj [])) (\<lambda>user_picks.
                Inr (RenderWeek week schedule user_picks now, s)))))))"

text \<open>The pick stored for a game in a document, \<^verbatim>\<open>doc[week][user][game]\<close>, if there is
  one; and the pick document a state holds on disk, as the next request will load it.\<close>

definition stored_pick :: "json \<Rightarrow> string \<Rightarrow> string \<Rightarrow> string \<Rightarrow> json option" where
  "stored_pick doc week_str user game_id =
     (case and_then (getitem doc week_str) (\<lambda>week_data.
           and_then (getitem week_data user) (\<lambda>user_picks.
             getitem user_picks game_id)) of
        Inl e \<Rightarrow> None
      | Inr team \<Rightarrow> Some team)"

definition picks_on_disk :: "state \<Rightarrow> json" where
  "picks_on_disk s = (case load_json PICKS_FILE s of Inl e \<Rightarrow> JObj [] | Inr doc \<Rightarrow> doc)"

text \<open>Inputs on which a submission runs to its end: a pick document that maps weeks to
  dicts of users to dicts, and a schedule whose events each carry a date string and,
  where the date parses, an id.\<close>

definition is_dict :: "json \<Rightarrow> bool" where
  "is_dict j = (case j of JObj kvs \<Rightarrow> True | _ \<Rightarrow> False)"

definition well_formed_picks :: "string \<Rightarrow> string \<Rightarrow> json \<Rightarrow> bool" where
  "well_formed_picks week_str user doc =
     (case doc of
        JObj kvs \<Rightarrow>
          (case map_of kvs week_str of
             None \<Rightarrow> True
           | Some (JObj wkvs) \<Rightarrow>
               (case map_of wkvs user of None \<Rightarrow> True | Some picks \<Rightarrow> is_dict picks)
           | Some _ \<Rightarrow> False)
      | _ \<Rightarrow> False)"

definition dated_event :: "(string \<Rightarrow> int option) \<Rightarrow> json \<Rightarrow> bool" where
  "dated_event strptime event =
     (case getitem event ''date'' of
        Inr (JStr d) \<Rightarrow>
          (case strptime d of
             None \<Rightarrow> True
           | Some start_time \<Rightarrow> (case getitem event ''id'' of Inl e \<Rightarrow> False | Inr gid \<Rightarrow> True))
      | _ \<Rightarrow> False)"

definition dated_schedule :: "(string \<Rightarrow> int option) \<Rightarrow> json \<Rightarrow> bool" where
  "dated_schedule strptime schedule =
     (case schedule of
        JObj kvs \<Rightarrow>
          (case map_of kvs ''events'' of
             None \<Rightarrow> True
           | Some (JArr events) \<Rightarrow> list_all (dated_event strptime) events
           | Some _ \<Rightarrow> False)
      | _ \<Rightarrow> False)"

text \<open>The kickoff an event contributes to the kickoff map: the parse of its date, when
  the date is a string that parses.\<close>

definition event_kickoff :: "(string \<Rightarrow> int option) \<Rightarrow> json \<Rightarrow> int option" where
  "event_kickoff strptime event =
     (case getitem event ''date'' of Inr (JStr d) \<Rightarrow> strptime d | _ \<Rightarrow> None)"

section \<open>Concrete documents\<close>

definition sample_schedule :: json where
  "sample_schedule = JObj [(''events'', JArr [
     JObj [(''id'', JStr ''401''), (''date'', JStr ''2024-09-08T17:00Z''),
           (''competitions'', JArr [JObj [
              (''status'', JObj [(''type'', JObj [(''completed'', JBool True)])]),
              (''competitors'', JArr [
                 JObj [(''team'', JObj [(''id'', JStr ''12'')]), (''winner'', JBool True)],
                 JObj [(''team'', JObj [(''id'', JStr ''7'')]), (''winner'', JBool False)]])]])],
     JObj [(''id'', JStr ''402''), (''date'', JStr ''2024-09-08T20:25Z''),
           (''competitions'', JArr [JObj [
              (''status'', JObj [(''type'', JObj [(''completed'', JBool False)])]),
              (''competitors'', JArr [
                 JObj [(''team'', JObj [(''id'', JStr ''3'')])],
                 JObj [(''team'', JObj [(''id'', JStr ''4'')])]])]])]])]"

text \<open>An event without the key \<^verbatim>\<open>competitions\<close>.\<close>

definition malformed_schedule :: json where
  "malformed_schedule = JObj [(''events'', JArr [JObj [(''id'', JStr ''401'')]])]"

text \<open>A completed game both of whose competitors are flagged as winner.\<close>

definition two_winners_event :: json where
  "two_winners_event =
     JObj [(''id'', JStr ''401''),
           (''competitions'', JArr [JObj [
              (''status'', JObj [(''type'', JObj [(''completed'', JBool True)])]),
              (''competitors'', JArr [
                 JObj [(''team'', JObj [(''id'', JStr ''12'')]), (''winner'', JBool True)],
                 JObj [(''team'', JObj [(''id'', JStr ''7'')]), (''winner'', JBool True)]])]])]"

definition two_winners_schedule :: json where
  "two_winners_schedule = JObj [(''events'', JArr [two_winners_event])]"

text \<open>A parse of the two dates of \<open>sample_schedule\<close>, in minutes of that day.\<close>

definition sample_strptime :: "string \<Rightarrow> int option" where
  "sample_strptime d =
     (if d = ''2024-09-08T17:00Z'' then Some 1020
      else if d = ''2024-09-08T20:25Z'' then Some 1225
      else None)"

definition empty_state :: state where
  "empty_state = \<lparr>files = [], saved = [], session_user = None, flashed = []\<rparr>"

text \<open>A submission of three picks; a pick document, the state that holds it, and what a
  submission at two different times makes of them.\<close>

definition sample_form :: "(string \<times> string) list" where
  "sample_form = [(''401'', ''12''), (''402'', ''3''), (''999'', ''5'')]"

definition alice_picks :: json where
  "alice_picks = JObj [(''1'', JObj [(''alice'', JObj [(''401'', JStr ''7'')])])]"

definition alice_picks_later :: json where
  "alice_picks_later =
     JObj [(''1'', JObj [(''alice'', JObj [(''401'', JStr ''7''), (''999'', JStr ''5'')])])]"

definition alice_picks_earlier :: json where
  "alice_picks_earlier =
     JObj [(''1'', JObj [(''alice'',
        JObj [(''401'', JStr ''7''), (''402'', JStr ''3''), (''999'', JStr ''5'')])])]"

definition alice_before :: state where
  "alice_before =
     \<lparr>files = [(PICKS_FILE, Parsable alice_picks)],
      saved = [], session_user = Some ''alice'', flashed = []\<rparr>"

definition alice_after :: state where
  "alice_after =
     \<lparr>files = [(PICKS_FILE, Parsable alice_picks_later)],
      saved = [(PICKS_FILE, alice_picks_later)], session_user = Some ''alice'',
      flashed = [LockedMsg 1 2]\<rparr>"

text \<open>A pick document with picks of two users in two weeks, the state that holds it with
  alice logged in, and the state after alice posted a pick for a game that has started.\<close>

definition league_picks :: json where
  "league_picks =
     JObj [(''1'', JObj [(''alice'', JObj [(''401'', JStr ''7'')]),
                         (''bob'', JObj [(''402'', JStr ''3'')])]),
           (''2'', JObj [(''bob'', JObj [(''410'', JStr ''9'')])])]"

definition league_state :: state where
  "league_state =
     \<lparr>files = [(PICKS_FILE, Parsable league_picks)],
      saved = [], session_user = Some ''alice'', flashed = []\<rparr>"

definition league_resaved :: state where
  "league_resaved =
     \<lparr>files = [(PICKS_FILE, Parsable league_picks)],
      saved = [(PICKS_FILE, league_picks)], session_user = Some ''alice'',
      flashed = [LockedMsg 0 1]\<rparr>"

text \<open>A state whose pick file exists with the given content.\<close>

definition picks_holding :: "file_content \<Rightarrow> state" where
  "picks_holding content =
     \<lparr>files = [(PICKS_FILE, content)], saved = [], session_user = None, flashed = []\<rparr>"

text \<open>A state in which bob has an account and nobody is logged in.\<close>

definition bob_registered :: state where
  "bob_registered =
     \<lparr>files = [(USERS_FILE, Parsable (JObj [(''bob'', JStr ''hash$secret'')]))],
      saved = [], session_user = None, flashed = []\<rparr>"

section \<open>Properties of the winner resolver\<close>

lemma and_then_Inr [simp]: "and_then (Inr x) f = f x"
  by (simp add: and_then_def)

lemma and_then_Inl [simp]: "and_then (Inl e) f = Inl e"
  by (simp add: and_then_def)

lemma and_then_Inr_iff:
  "and_then r f = Inr y \<longleftrightarrow> (\<exists>x. r = Inr x \<and> f x = Inr y)"
  by (cases r) (simp_all add: and_then_def)

lemma competitor_step_cases:
  assumes "competitor_step repr event w c = Inr w'"
  shows "(\<not> flagged_winner c \<and> w' = w) \<or>
         (flagged_winner c \<and> (\<exists>k t. game_key repr event = Some k \<and> team_id_of c = Inr t \<and> w' = AList.update k t w))"
  using assms
  by (auto simp: competitor_step_def and_then_Inr_iff flagged_winner_def game_key_def team_id_of_def
           split: if_splits)

lemma competitors_loop_sound:
  assumes "competitors_loop repr event w cs = Inr w'" and "map_of w' k = Some t"
  shows "map_of w k = Some t \<or>
         (game_key repr event = Some k \<and> (\<exists>c \<in> set cs. flagged_winner c \<and> team_id_of c = Inr t))"
  using assms
proof (induction cs arbitrary: w)
  case Nil
  then show ?case by simp
next
  case (Cons c cs)
  from Cons.prems(1) obtain w1 where s: "competitor_step repr event w c = Inr w1"
    and l: "competitors_loop repr event w1 cs = Inr w'"
    by (auto split: sum.splits)
  from Cons.IH [OF l Cons.prems(2)]
  show ?case
  proof
    assume m: "map_of w1 k = Some t"
    from competitor_step_cases [OF s] m show ?thesis
      by (auto simp: update_conv' split: if_splits)
  next
    assume "game_key repr event = Some k \<and> (\<exists>c \<in> set cs. flagged_winner c \<and> team_id_of c = Inr t)"
    then show ?thesis by auto
  qed
qed

lemma event_step_cases:
  assumes "event_step repr w event = Inr w'"
  shows "(\<not> marked_completed event \<and> w' = w) \<or>
         (marked_completed event \<and> competitors_loop repr event w (event_competitors event) = Inr w')"
  using assms
  by (auto simp: event_step_def and_then_Inr_iff marked_completed_def event_competitors_def
           split: if_splits)

lemma events_loop_sound:
  assumes "events_loop repr w events = Inr w'" and "map_of w' k = Some t"
  shows "map_of w k = Some t \<or> (\<exists>event \<in> set events. decided_by repr k t event)"
  using assms
proof (induction events arbitrary: w)
  case Nil
  then show ?case by simp
next
  case (Cons ev evs)
  from Cons.prems(1) obtain w1 where s: "event_step repr w ev = Inr w1"
    and l: "events_loop repr w1 evs = Inr w'"
    by (auto split: sum.splits)
  from Cons.IH [OF l Cons.prems(2)]
  show ?case
  proof
    assume m: "map_of w1 k = Some t"
    from event_step_cases [OF s] show ?thesis
    proof
      assume "\<not> marked_completed ev \<and> w1 = w"
      with m show ?thesis by simp
    next
      assume c: "marked_completed ev \<and> competitors_loop repr ev w (event_competitors ev) = Inr w1"
      with competitors_loop_sound [of repr ev w "event_competitors ev" w1 k t] m
      show ?thesis by (auto simp: decided_by_def)
    qed
  next
    assume "\<exists>event \<in> set evs. decided_by repr k t event"
    then show ?thesis by auto
  qed
qed

lemma determine_winners_cases:
  assumes "determine_winners repr games = Inr w"
  shows "events_loop repr [] (schedule_events games) = Inr w"
proof (cases "truthy games \<and> py_in ''events'' games = Inr True")
  case True
  with assms show ?thesis
    by (auto simp: determine_winners_def schedule_events_def and_then_Inr_iff)
next
  case False
  with assms have w: "w = []"
    by (auto simp: determine_winners_def and_then_Inr_iff split: if_splits)
  have "schedule_events games = []"
  proof (cases games)
    case (JObj kvs)
    show ?thesis
    proof (cases "map_of kvs ''events''")
      case None
      with JObj show ?thesis by (simp add: schedule_events_def)
    next
      case (Some v)
      then have "''events'' \<in> fst ` set kvs" "kvs \<noteq> []"
        by (auto dest: map_of_SomeD intro: rev_image_eqI)
      with False JObj show ?thesis by simp
    qed
  qed (simp_all add: schedule_events_def)
  with w show ?thesis by simp
qed


text \<open>
  Claim C2. Whenever \<open>determine_winners\<close> returns a map and the map sends a game id to
  a team, the schedule holds an event with that id that is marked completed and has a
  competitor flagged as winner with that team id: no game that is not completed and no
  game without a flagged winner is in the map. On a schedule without events, on the
  empty dict and on \<^verbatim>\<open>None\<close> the map is empty.
\<close>

theorem determine_winners_sound:
  "(\<forall>winners k t. determine_winners repr games = Inr winners \<and> map_of winners k = Some t \<longrightarrow>
      (\<exists>event \<in> set (schedule_events games). decided_by repr k t event))
   \<and> determine_winners repr (JObj [(''events'', JArr [])]) = Inr []
   \<and> determine_winners repr (JObj []) = Inr []
   \<and> determine_winners repr JNull = Inr []"
proof -
  have "\<exists>event \<in> set (schedule_events games). decided_by repr k t event"
    if "determine_winners repr games = Inr winners" and "map_of winners k = Some t" for winners k t
    using events_loop_sound [OF determine_winners_cases [OF that(1)] that(2)]
    by simp
  moreover have "determine_winners repr (JObj [(''events'', JArr [])]) = Inr []"
    by (simp add: determine_winners_def and_then_def)
  moreover have "determine_winners repr (JObj []) = Inr []"
    by (simp add: determine_winners_def)
  moreover have "determine_winners repr JNull = Inr []"
    by (simp add: determine_winners_def)
  ultimately show ?thesis by blast
qed

theorem determine_winners_sound_witness:
  "determine_winners no_repr sample_schedule = Inr [(''401'', JStr ''12'')]
   \<and> map_of [(''401'', JStr ''12'')] ''401'' = Some (JStr ''12'')
   \<and> (\<exists>event \<in> set (schedule_events sample_schedule). decided_by no_repr ''401'' (JStr ''12'') event)"
proof -
  have r: "determine_winners no_repr sample_schedule = Inr [(''401'', JStr ''12'')]"
    by (simp add: sample_schedule_def determine_winners_def event_step_def competition_of_def
          completed_of_def competitor_step_def)
  have m: "map_of [(''401'', JStr ''12'')] ''401'' = Some (JStr ''12'')"
    by simp
  from determine_winners_sound [of no_repr sample_schedule] r m
  show ?thesis by blast
qed

lemma map_of_Some_key: "map_of kvs k = Some v \<Longrightarrow> k \<in> fst ` set kvs"
  by (induction kvs) (auto split: if_splits)

lemma map_of_None_key: "map_of kvs k = None \<Longrightarrow> k \<notin> fst ` set kvs"
  by (simp add: map_of_eq_None_iff)

lemma determine_winners_empty:
  assumes "empty_schedule games"
  shows "determine_winners repr games = Inr []"
proof (cases "truthy games")
  case False
  then show ?thesis by (simp add: determine_winners_def)
next
  case True
  with assms obtain kvs where g: "games = JObj kvs"
    and e: "(case map_of kvs ''events'' of None \<Rightarrow> True | Some v \<Rightarrow> py_iter v = Inr [])"
    by (auto simp: empty_schedule_def split: json.splits)
  show ?thesis
  proof (cases "map_of kvs ''events''")
    case None
    then show ?thesis using g True
      by (simp add: determine_winners_def map_of_eq_None_iff)
  next
    case (Some v)
    with e have "py_iter v = Inr []" by simp
    with Some g True show ?thesis
      by (simp add: determine_winners_def)
  qed
qed

lemma competitor_step_total:
  assumes "well_formed_competitor c" and "getitem event ''id'' = Inr gid"
  shows "\<exists>w'. competitor_step repr event w c = Inr w'"
  using assms
  by (auto simp: well_formed_competitor_def competitor_step_def team_id_of_def and_then_def
           split: json.splits sum.splits)

lemma competitors_loop_total:
  assumes "list_all well_formed_competitor cs" and "getitem event ''id'' = Inr gid"
  shows "\<exists>w'. competitors_loop repr event w cs = Inr w'"
  using assms
proof (induction cs arbitrary: w)
  case Nil
  then show ?case by simp
next
  case (Cons c cs)
  then obtain w1 where "competitor_step repr event w c = Inr w1"
    using competitor_step_total [of c event gid repr w] by auto
  with Cons show ?case by simp
qed

lemma event_step_total:
  assumes "well_formed_event event"
  shows "\<exists>w'. event_step repr w event = Inr w'"
proof -
  from assms obtain gid competition c cs where
    "getitem event ''id'' = Inr gid" "competition_of event = Inr competition"
    "completed_of competition = Inr c" "getitem competition ''competitors'' = Inr (JArr cs)"
    "list_all well_formed_competitor cs"
    by (auto simp: well_formed_event_def split: sum.splits json.splits)
  then show ?thesis
    using competitors_loop_total [of cs event gid repr w]
    by (auto simp: event_step_def)
qed

lemma events_loop_total:
  assumes "list_all well_formed_event events"
  shows "\<exists>w'. events_loop repr w events = Inr w'"
  using assms
proof (induction events arbitrary: w)
  case Nil
  then show ?case by simp
next
  case (Cons ev evs)
  then obtain w1 where "event_step repr w ev = Inr w1"
    using event_step_total [of ev repr w] by auto
  with Cons show ?case by simp
qed

lemma determine_winners_total:
  assumes "well_formed_schedule games"
  shows "\<exists>w. determine_winners repr games = Inr w"
proof -
  from assms obtain kvs where g: "games = JObj kvs"
    by (cases games) (auto simp: well_formed_schedule_def)
  with assms obtain v where m: "map_of kvs ''events'' = Some v"
    by (cases "map_of kvs ''events''") (auto simp: well_formed_schedule_def)
  with assms g obtain events where v: "v = JArr events" and w: "list_all well_formed_event events"
    by (cases v) (auto simp: well_formed_schedule_def)
  from m v have e: "map_of kvs ''events'' = Some (JArr events)" by simp
  from e have "''events'' \<in> fst ` set kvs" by (rule map_of_Some_key)
  moreover from e have "kvs \<noteq> []" by auto
  ultimately show ?thesis
    using g e events_loop_total [OF w, of repr "[]"]
    by (auto simp: determine_winners_def)
qed


text \<open>
  Claim C7, as the code has it. The resolver returns the empty map on every empty
  schedule and returns a map, without raising, on every schedule of the documented
  shape.
\<close>

theorem determine_winners_tolerates:
  "(empty_schedule games \<longrightarrow> determine_winners repr games = Inr [])
   \<and> (well_formed_schedule games \<longrightarrow> (\<exists>winners. determine_winners repr games = Inr winners))"
  using determine_winners_empty determine_winners_total by blast

theorem determine_winners_tolerates_witness:
  "empty_schedule (JObj [(''events'', JArr [])])
   \<and> determine_winners no_repr (JObj [(''events'', JArr [])]) = Inr []
   \<and> well_formed_schedule sample_schedule
   \<and> (\<exists>winners. determine_winners no_repr sample_schedule = Inr winners)"
proof -
  have e: "empty_schedule (JObj [(''events'', JArr [])])"
    by (simp add: empty_schedule_def)
  have w: "well_formed_schedule sample_schedule"
    by (simp add: well_formed_schedule_def sample_schedule_def well_formed_event_def
          competition_of_def completed_of_def well_formed_competitor_def team_id_of_def)
  from determine_winners_tolerates [of "JObj [(''events'', JArr [])]" no_repr]
       determine_winners_tolerates [of sample_schedule no_repr] e w
  show ?thesis by blast
qed


text \<open>
  Claim C7 as stated fails: an event without the key \<^verbatim>\<open>competitions\<close> makes the
  resolver raise \<^verbatim>\<open>KeyError\<close> instead of returning an empty map.
\<close>

theorem determine_winners_raises_on_malformed_event:
  "determine_winners no_repr malformed_schedule = Inl KeyError"
  by (simp add: malformed_schedule_def determine_winners_def event_step_def competition_of_def)

lemma competitors_loop_unflagged:
  assumes "competitors_loop repr event w cs = Inr w'" and "filter flagged_winner cs = []"
  shows "w' = w"
  using assms
proof (induction cs arbitrary: w)
  case Nil
  then show ?case by simp
next
  case (Cons c cs)
  from Cons.prems(1) obtain w1 where s: "competitor_step repr event w c = Inr w1"
    and l: "competitors_loop repr event w1 cs = Inr w'"
    by (auto split: sum.splits)
  from Cons.prems(2) have nf: "\<not> flagged_winner c" and r: "filter flagged_winner cs = []"
    by (auto split: if_splits)
  from competitor_step_cases [OF s] nf have "w1 = w" by auto
  with Cons.IH [OF l r] show ?case by simp
qed

lemma competitors_loop_last:
  assumes "competitors_loop repr event w cs = Inr w'" and "game_key repr event = Some k"
    and "filter flagged_winner cs \<noteq> []"
  shows "\<exists>t. team_id_of (last (filter flagged_winner cs)) = Inr t \<and> map_of w' k = Some t"
  using assms
proof (induction cs arbitrary: w)
  case Nil
  then show ?case by simp
next
  case (Cons c cs)
  from Cons.prems(1) obtain w1 where s: "competitor_step repr event w c = Inr w1"
    and l: "competitors_loop repr event w1 cs = Inr w'"
    by (auto split: sum.splits)
  show ?case
  proof (cases "filter flagged_winner cs = []")
    case True
    with Cons.prems(3) have f: "flagged_winner c" by (auto split: if_splits)
    from competitors_loop_unflagged [OF l True] have "w' = w1" .
    with competitor_step_cases [OF s] f Cons.prems(2) True show ?thesis
      by (auto simp: update_conv')
  next
    case False
    from Cons.IH [OF l Cons.prems(2) False] False show ?thesis
      by simp
  qed
qed

lemma event_step_other_key:
  assumes "event_step repr w event = Inr w'" and "game_key repr event \<noteq> Some k"
  shows "map_of w' k = map_of w k"
proof -
  have keep: "map_of w2 k = map_of w1 k" if "competitors_loop repr event w1 cs = Inr w2" for w1 w2 cs
    using that
  proof (induction cs arbitrary: w1)
    case Nil
    then show ?case by simp
  next
    case (Cons c cs)
    from Cons.prems obtain w3 where s: "competitor_step repr event w1 c = Inr w3"
      and l: "competitors_loop repr event w3 cs = Inr w2"
      by (auto split: sum.splits)
    from competitor_step_cases [OF s] assms(2) have "map_of w3 k = map_of w1 k"
      by (auto simp: update_conv')
    with Cons.IH [OF l] show ?case by simp
  qed
  from event_step_cases [OF assms(1)] keep show ?thesis by auto
qed

lemma events_loop_other_keys:
  assumes "events_loop repr w events = Inr w'" and "\<forall>e \<in> set events. game_key repr e \<noteq> Some k"
  shows "map_of w' k = map_of w k"
  using assms
proof (induction events arbitrary: w)
  case Nil
  then show ?case by simp
next
  case (Cons ev evs)
  from Cons.prems(1) obtain w1 where s: "event_step repr w ev = Inr w1"
    and l: "events_loop repr w1 evs = Inr w'"
    by (auto split: sum.splits)
  from Cons.prems(2) have "game_key repr ev \<noteq> Some k" and r: "\<forall>e \<in> set evs. game_key repr e \<noteq> Some k"
    by auto
  with event_step_other_key [OF s] Cons.IH [OF l r] show ?case by simp
qed

lemma events_loop_append:
  assumes "events_loop repr w (pre @ event # post) = Inr w'"
  shows "\<exists>w1 w2. events_loop repr w pre = Inr w1 \<and> event_step repr w1 event = Inr w2
           \<and> events_loop repr w2 post = Inr w'"
  using assms
proof (induction pre arbitrary: w)
  case Nil
  then show ?case by (auto split: sum.splits)
next
  case (Cons p pre)
  from Cons.prems obtain w0 where s: "event_step repr w p = Inr w0"
    and l: "events_loop repr w0 (pre @ event # post) = Inr w'"
    by (auto split: sum.splits)
  from Cons.IH [OF l] s show ?case by auto
qed


text \<open>
  Claim C10. When the resolver returns and a completed event, the last one of its id in
  the schedule, has at least one competitor flagged as winner, the map sends the id to
  the team id of the last flagged competitor in list order.
\<close>

theorem determine_winners_last_flagged:
  assumes "determine_winners repr games = Inr winners"
    and "schedule_events games = pre @ event # post"
    and "game_key repr event = Some k"
    and "\<forall>e \<in> set post. game_key repr e \<noteq> Some k"
    and "marked_completed event"
    and "filter flagged_winner (event_competitors event) \<noteq> []"
  shows "\<exists>t. team_id_of (last (filter flagged_winner (event_competitors event))) = Inr t
           \<and> map_of winners k = Some t"
proof -
  from determine_winners_cases [OF assms(1)] assms(2)
  have "events_loop repr [] (pre @ event # post) = Inr winners"
    by simp
  from events_loop_append [OF this] obtain w1 w2 where
    s: "event_step repr w1 event = Inr w2" and l: "events_loop repr w2 post = Inr winners"
    by blast
  from event_step_cases [OF s] assms(5)
  have "competitors_loop repr event w1 (event_competitors event) = Inr w2" by simp
  from competitors_loop_last [OF this assms(3) assms(6)] obtain t where
    t: "team_id_of (last (filter flagged_winner (event_competitors event))) = Inr t" "map_of w2 k = Some t"
    by blast
  from events_loop_other_keys [OF l assms(4)] t show ?thesis by simp
qed

theorem determine_winners_last_flagged_witness:
  "determine_winners no_repr two_winners_schedule = Inr [(''401'', JStr ''7'')]
   \<and> schedule_events two_winners_schedule = [] @ two_winners_event # []
   \<and> game_key no_repr two_winners_event = Some ''401''
   \<and> marked_completed two_winners_event
   \<and> length (filter flagged_winner (event_competitors two_winners_event)) = 2
   \<and> (\<exists>t. team_id_of (last (filter flagged_winner (event_competitors two_winners_event))) = Inr t
          \<and> map_of [(''401'', JStr ''7'')] ''401'' = Some t)"
proof -
  have r: "determine_winners no_repr two_winners_schedule = Inr [(''401'', JStr ''7'')]"
    by (simp add: two_winners_schedule_def two_winners_event_def determine_winners_def
          event_step_def competition_of_def completed_of_def competitor_step_def)
  have e: "schedule_events two_winners_schedule = [] @ two_winners_event # []"
    by (simp add: two_winners_schedule_def schedule_events_def)
  have k: "game_key no_repr two_winners_event = Some ''401''"
    by (simp add: two_winners_event_def game_key_def)
  have c: "marked_completed two_winners_event"
    by (simp add: two_winners_event_def marked_completed_def competition_of_def completed_of_def)
  have f: "length (filter flagged_winner (event_competitors two_winners_event)) = 2"
    by (simp add: two_winners_event_def event_competitors_def competition_of_def
          flagged_winner_def)
  then have n: "filter flagged_winner (event_competitors two_winners_event) \<noteq> []"
    by auto
  have p: "\<forall>e \<in> set []. game_key no_repr e \<noteq> Some ''401''"
    by simp
  from determine_winners_last_flagged [OF r e k p c n] r e k c f
  show ?thesis by simp
qed

section \<open>Properties of the record store and of authentication\<close>

lemma load_json_recovers:
  "map_of (files s) filename = None \<Longrightarrow> load_json filename s = Inr (JObj [])"
  "map_of (files s) filename = Some Unparsable \<Longrightarrow> load_json filename s = Inr (JObj [])"
  "map_of (files s) filename = Some (Parsable doc) \<Longrightarrow> load_json filename s = Inr doc"
  by (simp_all add: load_json_def)

text \<open>
  Claim C4 fails on the code. \<open>load_json\<close> recovers from an absent file and from
  \<^verbatim>\<open>JSONDecodeError\<close> only. On a file that exists and cannot be parsed because its
  bytes are no text in the encoding of the file, because it is nested too deeply or
  because it holds an integer beyond the digit limit, \<^verbatim>\<open>json.load\<close> raises an exception
  that line 23 does not catch, and \<open>load_json\<close> raises instead of returning the empty
  dict.
\<close>

theorem load_json_raises_on_unreadable_file:
  "load_json PICKS_FILE (picks_holding Undecodable) = Inl UnicodeDecodeError
   \<and> load_json PICKS_FILE (picks_holding TooDeep) = Inl RecursionError
   \<and> load_json PICKS_FILE (picks_holding HugeInteger) = Inl ValueError"
  by (simp add: load_json_def picks_holding_def)

text \<open>
  Claim C6, as the code has it. \<open>login\<close> answers with the message that user name and
  password are required, and leaves session and stores as they were, whenever the user
  name is empty after stripping white space or the password is missing or empty. The
  password is tested as submitted, not stripped.
\<close>

theorem login_requires_fields:
  assumes "submitted_username form = [] \<or> map_of form ''password'' = None
           \<or> map_of form ''password'' = Some []"
  shows "login generate_password_hash check_password_hash form s =
           Inr (Redirect ''/'', flash RequiredMsg s)
         \<and> session_user (flash RequiredMsg s) = session_user s
         \<and> files (flash RequiredMsg s) = files s
         \<and> saved (flash RequiredMsg s) = saved s"
  using assms
  by (auto simp: login_def submitted_username_def flash_def Let_def split: option.splits)

theorem login_requires_fields_witness:
  "(submitted_username [(''username'', ''  ''), (''password'', ''secret'')] = []
      \<or> map_of [(''username'', ''  ''), (''password'', ''secret'')] ''password'' = None
      \<or> map_of [(''username'', ''  ''), (''password'', ''secret'')] ''password'' = Some [])
   \<and> login sample_hash sample_check [(''username'', ''  ''), (''password'', ''secret'')] empty_state =
       Inr (Redirect ''/'', flash RequiredMsg empty_state)
   \<and> session_user (flash RequiredMsg empty_state) = session_user empty_state
   \<and> files (flash RequiredMsg empty_state) = files empty_state
   \<and> saved (flash RequiredMsg empty_state) = saved empty_state"
proof -
  have h: "submitted_username [(''username'', ''  ''), (''password'', ''secret'')] = []
      \<or> map_of [(''username'', ''  ''), (''password'', ''secret'')] ''password'' = None
      \<or> map_of [(''username'', ''  ''), (''password'', ''secret'')] ''password'' = Some []"
    by (simp add: submitted_username_def strip_def is_space_def)
  from login_requires_fields [OF h, of sample_hash sample_check empty_state] h
  show ?thesis by blast
qed


text \<open>
  Claim C6 as stated fails: a password of one blank is empty after trimming, yet
  \<open>login\<close> registers the account and opens the session.
\<close>

theorem login_blank_password_registers:
  "strip '' '' = []
   \<and> login sample_hash sample_check [(''username'', ''bob''), (''password'', '' '')] empty_state =
       Inr (Redirect ''/'',
            \<lparr>files = [(USERS_FILE, Parsable (JObj [(''bob'', JStr ''hash$ '')]))],
             saved = [(USERS_FILE, JObj [(''bob'', JStr ''hash$ '')])],
             session_user = Some ''bob'',
             flashed = [WelcomeMsg ''bob'']\<rparr>)"
  by (simp add: login_def strip_def is_space_def empty_state_def load_json_def save_json_def
        flash_def sample_hash_def USERS_FILE_def and_then_def Let_def)


text \<open>
  Claim C3. With a user name and a password that pass the check of the fields and an
  account store that is a dict: for a user name that is not in the store, \<open>login\<close>
  adds the hash of the password under the name, saves the store, sets the session to the
  name and welcomes the user; for a user name in the store, it sets the session when the
  password verifies against the stored value, and otherwise reports the wrong password
  and leaves the session as it was.
\<close>

theorem login_registers_or_verifies:
  assumes "submitted_username form = username" and "username \<noteq> []"
    and "map_of form ''password'' = Some password" and "password \<noteq> []"
    and "load_json USERS_FILE s = Inr (JObj accounts)"
  shows "(map_of accounts username = None \<longrightarrow>
            login generate_password_hash check_password_hash form s =
              Inr (Redirect ''/'',
                   flash (WelcomeMsg username)
                     ((save_json USERS_FILE
                         (JObj (AList.update username (JStr (generate_password_hash password)) accounts)) s)
                      \<lparr>session_user := Some username\<rparr>)))
       \<and> (\<forall>stored. map_of accounts username = Some stored \<longrightarrow>
            (check_password_hash stored password = Inr True \<longrightarrow>
               login generate_password_hash check_password_hash form s =
                 Inr (Redirect ''/'', s\<lparr>session_user := Some username\<rparr>))
          \<and> (check_password_hash stored password = Inr False \<longrightarrow>
               login generate_password_hash check_password_hash form s =
                 Inr (Redirect ''/'', flash IncorrectMsg s)
               \<and> session_user (flash IncorrectMsg s) = session_user s)
          \<and> (\<forall>e. check_password_hash stored password = Inl e \<longrightarrow>
               login generate_password_hash check_password_hash form s = Inl e))"
proof -
  have new: "login generate_password_hash check_password_hash form s =
              Inr (Redirect ''/'',
                   flash (WelcomeMsg username)
                     ((save_json USERS_FILE
                         (JObj (AList.update username (JStr (generate_password_hash password)) accounts)) s)
                      \<lparr>session_user := Some username\<rparr>))"
    if "map_of accounts username = None"
    using assms map_of_None_key [OF that]
    by (simp add: login_def submitted_username_def Let_def)
  have old: "login generate_password_hash check_password_hash form s =
               and_then (check_password_hash stored password) (\<lambda>ok.
                 if ok then Inr (Redirect ''/'', s\<lparr>session_user := Some username\<rparr>)
                 else Inr (Redirect ''/'', flash IncorrectMsg s))"
    if "map_of accounts username = Some stored" for stored
    using assms that map_of_Some_key [OF that]
    by (simp add: login_def submitted_username_def Let_def)
  show ?thesis
    using new old by (simp add: flash_def)
qed

theorem login_registers_or_verifies_witness:
  "login sample_hash sample_check [(''username'', '' bob''), (''password'', ''secret'')] empty_state =
     Inr (Redirect ''/'',
          \<lparr>files = [(USERS_FILE, Parsable (JObj [(''bob'', JStr ''hash$secret'')]))],
           saved = [(USERS_FILE, JObj [(''bob'', JStr ''hash$secret'')])],
           session_user = Some ''bob'',
           flashed = [WelcomeMsg ''bob'']\<rparr>)
   \<and> login sample_hash sample_check [(''username'', ''bob''), (''password'', ''secret'')] bob_registered =
       Inr (Redirect ''/'', bob_registered\<lparr>session_user := Some ''bob''\<rparr>)
   \<and> login sample_hash sample_check [(''username'', ''bob''), (''password'', ''guess'')] bob_registered =
       Inr (Redirect ''/'', flash IncorrectMsg bob_registered)
   \<and> session_user (flash IncorrectMsg bob_registered) = None"
proof -
  have u1: "submitted_username [(''username'', '' bob''), (''password'', ''secret'')] = ''bob''"
    by (simp add: submitted_username_def strip_def is_space_def)
  have l1: "load_json USERS_FILE empty_state = Inr (JObj [])"
    by (simp add: load_json_def empty_state_def)
  have u2: "submitted_username [(''username'', ''bob''), (''password'', ''secret'')] = ''bob''"
    by (simp add: submitted_username_def strip_def is_space_def)
  have u3: "submitted_username [(''username'', ''bob''), (''password'', ''guess'')] = ''bob''"
    by (simp add: submitted_username_def strip_def is_space_def)
  have l2: "load_json USERS_FILE bob_registered = Inr (JObj [(''bob'', JStr ''hash$secret'')])"
    by (simp add: load_json_def bob_registered_def)
  have n: "''bob'' \<noteq> []" "''secret'' \<noteq> []" "''guess'' \<noteq> []"
    by simp_all
  have p1: "map_of [(''username'', '' bob''), (''password'', ''secret'')] ''password'' = Some ''secret''"
    by simp
  have p2: "map_of [(''username'', ''bob''), (''password'', ''secret'')] ''password'' = Some ''secret''"
    by simp
  have p3: "map_of [(''username'', ''bob''), (''password'', ''guess'')] ''password'' = Some ''guess''"
    by simp
  have s: "session_user bob_registered = None"
    by (simp add: bob_registered_def)
  from login_registers_or_verifies [OF u1 n(1) p1 n(2) l1, of sample_hash sample_check]
  have a: "login sample_hash sample_check [(''username'', '' bob''), (''password'', ''secret'')] empty_state =
     Inr (Redirect ''/'',
          \<lparr>files = [(USERS_FILE, Parsable (JObj [(''bob'', JStr ''hash$secret'')]))],
           saved = [(USERS_FILE, JObj [(''bob'', JStr ''hash$secret'')])],
           session_user = Some ''bob'',
           flashed = [WelcomeMsg ''bob'']\<rparr>)"
    by (simp add: empty_state_def save_json_def flash_def sample_hash_def)
  from login_registers_or_verifies [OF u2 n(1) p2 n(2) l2, of sample_hash sample_check]
  have b: "login sample_hash sample_check [(''username'', ''bob''), (''password'', ''secret'')] bob_registered =
       Inr (Redirect ''/'', bob_registered\<lparr>session_user := Some ''bob''\<rparr>)"
    by (simp add: sample_hash_def)
  from login_registers_or_verifies [OF u3 n(1) p3 n(3) l2, of sample_hash sample_check]
  have c: "login sample_hash sample_check [(''username'', ''bob''), (''password'', ''guess'')] bob_registered =
       Inr (Redirect ''/'', flash IncorrectMsg bob_registered)
       \<and> session_user (flash IncorrectMsg bob_registered) = session_user bob_registered"
    by (simp add: sample_hash_def)
  from a b c s show ?thesis by simp
qed

section \<open>Properties of pick submission\<close>

lemma getitem_Inr_iff:
  "getitem j k = Inr v \<longleftrightarrow> (\<exists>kvs. j = JObj kvs \<and> map_of kvs k = Some v)"
  by (cases j) (auto split: option.splits)

lemma setitem_Inr_iff:
  "setitem j k v = Inr j' \<longleftrightarrow> (\<exists>kvs. j = JObj kvs \<and> j' = JObj (AList.update k v kvs))"
  by (cases j) auto

lemma store_pick_stored:
  assumes "store_pick w u g0 t0 d = Inr d1"
  shows "stored_pick d1 w u g = (if g = g0 then Some (JStr t0) else stored_pick d w u g)"
  using assms
  by (auto simp: store_pick_def stored_pick_def and_then_Inr_iff getitem_Inr_iff setitem_Inr_iff
        update_conv')

lemma picks_loop_counts:
  assumes "picks_loop gst now w u d sv bl items = Inr (d', sv', bl')"
  shows "sv' = sv + length (filter (\<lambda>(g, t). pick_open gst now g) items)
       \<and> bl' = bl + length (filter (\<lambda>(g, t). \<not> pick_open gst now g) items)"
  using assms
proof (induction items arbitrary: d sv bl)
  case Nil
  then show ?case by simp
next
  case (Cons a items)
  obtain g t where a: "a = (g, t)" by (cases a)
  show ?case
  proof (cases "pick_open gst now g")
    case True
    with Cons.prems a obtain d1 where
      "picks_loop gst now w u d1 (sv + 1) bl items = Inr (d', sv', bl')"
      by (auto split: sum.splits)
    from Cons.IH [OF this] True a show ?thesis by simp
  next
    case False
    with Cons.prems a have
      "picks_loop gst now w u d sv (bl + 1) items = Inr (d', sv', bl')"
      by simp
    from Cons.IH [OF this] False a show ?thesis by simp
  qed
qed

lemma picks_loop_stored:
  assumes "picks_loop gst now w u d sv bl items = Inr (d', sv', bl')"
    and "distinct (map fst items)"
  shows "stored_pick d' w u g =
           (case map_of items g of
              None \<Rightarrow> stored_pick d w u g
            | Some t \<Rightarrow> if pick_open gst now g then Some (JStr t) else stored_pick d w u g)"
  using assms
proof (induction items arbitrary: d sv bl)
  case Nil
  then show ?case by simp
next
  case (Cons a items)
  obtain g0 t0 where a: "a = (g0, t0)" by (cases a)
  from Cons.prems(2) a have dist: "distinct (map fst items)" and fresh: "map_of items g0 = None"
    by (auto simp: map_of_eq_None_iff)
  show ?case
  proof (cases "pick_open gst now g0")
    case True
    with Cons.prems(1) a obtain d1 where s: "store_pick w u g0 t0 d = Inr d1"
      and l: "picks_loop gst now w u d1 (sv + 1) bl items = Inr (d', sv', bl')"
      by (auto split: sum.splits)
    from Cons.IH [OF l dist] store_pick_stored [OF s] True a fresh show ?thesis
      by (auto split: option.splits)
  next
    case False
    with Cons.prems(1) a have l: "picks_loop gst now w u d sv (bl + 1) items = Inr (d', sv', bl')"
      by simp
    from Cons.IH [OF l dist] False a fresh show ?thesis
      by (auto split: option.splits)
  qed
qed

lemma store_pick_frame:
  assumes "store_pick w u g0 t0 d = Inr d1" and "w' \<noteq> w \<or> u' \<noteq> u"
  shows "stored_pick d1 w' u' g = stored_pick d w' u' g"
  using assms
  by (auto simp: store_pick_def stored_pick_def and_then_Inr_iff getitem_Inr_iff setitem_Inr_iff
        update_conv')

lemma picks_loop_frame:
  assumes "picks_loop gst now w u d sv bl items = Inr (d', sv', bl')" and "w' \<noteq> w \<or> u' \<noteq> u"
  shows "stored_pick d' w' u' g = stored_pick d w' u' g"
  using assms
proof (induction items arbitrary: d sv bl)
  case Nil
  then show ?case by simp
next
  case (Cons a items)
  obtain g0 t0 where a: "a = (g0, t0)" by (cases a)
  show ?case
  proof (cases "pick_open gst now g0")
    case True
    with Cons.prems(1) a obtain d1 where s: "store_pick w u g0 t0 d = Inr d1"
      and l: "picks_loop gst now w u d1 (sv + 1) bl items = Inr (d', sv', bl')"
      by (auto split: sum.splits)
    from Cons.IH [OF l Cons.prems(2)] store_pick_frame [OF s Cons.prems(2)] show ?thesis
      by simp
  next
    case False
    with Cons.prems(1) a have l: "picks_loop gst now w u d sv (bl + 1) items = Inr (d', sv', bl')"
      by simp
    from Cons.IH [OF l Cons.prems(2)] show ?thesis .
  qed
qed

lemma form_items_distinct: "distinct (map fst (form_items form))"
  by (simp add: form_items_def)

lemma form_items_lookup:
  assumes "(g, t) \<in> set (form_items form)"
  shows "map_of (form_items form) g = Some t"
  using assms form_items_distinct [of form] by simp

lemma ensure_entries_keeps:
  assumes "ensure_entries w u d0 = Inr d"
  shows "stored_pick d w' u' g = stored_pick d0 w' u' g"
proof (cases d0)
  case (JObj kvs)
  show ?thesis
  proof (cases "map_of kvs w")
    case None
    then have "w \<notin> fst ` set kvs" by (simp add: map_of_eq_None_iff)
    with assms JObj None show ?thesis
      by (auto simp: ensure_entries_def stored_pick_def update_conv' split: if_splits)
  next
    case (Some wd)
    then have k: "w \<in> fst ` set kvs" by (rule map_of_Some_key)
    show ?thesis
    proof (cases wd)
      case (JObj wkvs)
      show ?thesis
      proof (cases "map_of wkvs u")
        case None
        then have "u \<notin> fst ` set wkvs" by (simp add: map_of_eq_None_iff)
        with assms \<open>d0 = JObj kvs\<close> Some JObj None k show ?thesis
          by (auto simp: ensure_entries_def stored_pick_def update_conv' split: if_splits)
      next
        case (Some ud)
        then have "u \<in> fst ` set wkvs" by (rule map_of_Some_key)
        with assms \<open>d0 = JObj kvs\<close> \<open>map_of kvs w = Some wd\<close> JObj k show ?thesis
          by (auto simp: ensure_entries_def split: if_splits)
      qed
    qed (use assms \<open>d0 = JObj kvs\<close> Some k in
          \<open>auto simp: ensure_entries_def stored_pick_def split: if_splits\<close>)
  qed
qed (use assms in \<open>auto simp: ensure_entries_def and_then_Inr_iff split: if_splits\<close>)

lemma ensure_entries_stored:
  assumes "ensure_entries w u d0 = Inr d"
  shows "stored_pick d w u g = stored_pick d0 w u g"
  using assms by (rule ensure_entries_keeps)

lemma load_picks:
  assumes "load_json PICKS_FILE s = Inr d0"
  shows "picks_on_disk s = d0"
  using assms by (simp add: picks_on_disk_def)

lemma picks_saved: "load_json PICKS_FILE (flash msg (save_json PICKS_FILE doc s)) = Inr doc"
  by (simp add: load_json_def flash_def save_json_def update_conv')

lemma picks_after_save: "picks_on_disk (flash msg (save_json PICKS_FILE doc s)) = doc"
  by (rule load_picks) (rule picks_saved)

lemma week_view_loaded:
  assumes "session_user s = Some user"
    and "week_view repr strptime week method form schedule now s = Inr result"
  shows "\<exists>d0. load_json PICKS_FILE s = Inr d0"
proof (cases "load_json PICKS_FILE s")
  case (Inl e)
  with assms show ?thesis by (simp add: week_view_def Let_def)
next
  case (Inr d0)
  then show ?thesis by simp
qed

lemma week_view_post:
  assumes "session_user s = Some user" and "load_json PICKS_FILE s = Inr d0"
  shows "week_view repr strptime week POST form schedule now s =
           and_then (ensure_entries (str_int (int week)) user d0) (\<lambda>all_data.
           and_then (submit_picks repr strptime (str_int (int week)) user all_data form schedule now)
             (\<lambda>(all_data1, saved_count, blocked_count).
                Inr (Redirect (''/week/'' @ str_int (int week)),
                     flash (if blocked_count > 0 then LockedMsg saved_count blocked_count
                            else SavedMsg week)
                       (save_json PICKS_FILE all_data1 s))))"
  using assms by (simp add: week_view_def Let_def)

lemma week_view_get:
  assumes "session_user s = Some user" and "load_json PICKS_FILE s = Inr d0"
  shows "week_view repr strptime week GET form schedule now s =
           and_then (ensure_entries (str_int (int week)) user d0) (\<lambda>all_data.
           and_then (getitem all_data (str_int (int week))) (\<lambda>week_data.
           and_then (py_get week_data user (JObj [])) (\<lambda>user_picks.
             Inr (RenderWeek week schedule user_picks now, s))))"
  using assms by (simp add: week_view_def Let_def)

lemma start_time_step_source:
  assumes "start_time_step repr strptime gst event = Inr gst'" and "map_of gst' g = Some k"
  shows "map_of gst g = Some k \<or> (game_key repr event = Some g \<and> event_kickoff strptime event = Some k)"
proof -
  from assms(1) obtain date where d: "getitem event ''date'' = Inr date"
    and r: "(case date of
               JStr d \<Rightarrow>
                 (case strptime d of
                    None \<Rightarrow> Inr gst
                  | Some start_time \<Rightarrow>
                     and_then (getitem event ''id'') (\<lambda>gid.
                       Inr (AList.update (py_str repr gid) start_time gst)))
             | _ \<Rightarrow> Inl TypeError) = Inr gst'"
    by (auto simp: start_time_step_def and_then_Inr_iff)
  show ?thesis
  proof (cases date)
    case (JStr ds)
    show ?thesis
    proof (cases "strptime ds")
      case None
      with r JStr assms(2) show ?thesis by simp
    next
      case (Some start_time)
      with r JStr obtain gid where "getitem event ''id'' = Inr gid"
        and "gst' = AList.update (py_str repr gid) start_time gst"
        by (auto simp: and_then_Inr_iff)
      with assms(2) d JStr Some show ?thesis
        by (auto simp: game_key_def event_kickoff_def update_conv' split: if_splits)
    qed
  qed (use r in simp_all)
qed

lemma start_times_loop_source:
  assumes "start_times_loop repr strptime gst events = Inr gst'" and "map_of gst' g = Some k"
  shows "map_of gst g = Some k \<or>
         (\<exists>event \<in> set events. game_key repr event = Some g \<and> event_kickoff strptime event = Some k)"
  using assms
proof (induction events arbitrary: gst)
  case Nil
  then show ?case by simp
next
  case (Cons ev evs)
  from Cons.prems(1) obtain gst1 where s: "start_time_step repr strptime gst ev = Inr gst1"
    and l: "start_times_loop repr strptime gst1 evs = Inr gst'"
    by (auto split: sum.splits)
  from Cons.IH [OF l Cons.prems(2)] start_time_step_source [OF s] show ?case
    by auto
qed

lemma game_start_times_source:
  assumes "game_start_times repr strptime schedule = Inr kickoffs" and "map_of kickoffs g = Some k"
  shows "\<exists>event \<in> set (schedule_events schedule).
           game_key repr event = Some g \<and> event_kickoff strptime event = Some k"
proof -
  from assms(1) obtain events where e: "schedule_events schedule = events"
    and l: "start_times_loop repr strptime [] events = Inr kickoffs"
    by (auto simp: game_start_times_def schedule_events_def and_then_Inr_iff)
  from start_times_loop_source [OF l assms(2)] e show ?thesis by simp
qed

lemma str_int_1: "str_int 1 = ''1''"
  by code_simp

lemma sample_kickoffs:
  "game_start_times no_repr sample_strptime sample_schedule = Inr [(''401'', 1020), (''402'', 1225)]"
  by (simp add: game_start_times_def sample_schedule_def start_time_step_def sample_strptime_def)

lemma sample_form_items: "form_items sample_form = sample_form"
  by (simp add: form_items_def sample_form_def AList.delete_eq)


text \<open>
  Claim C5. Whenever the submission runs to its end, every entry of the submitted form is
  counted once: the saved count is the number of entries whose game is open, the blocked
  count the number of the others, and the two add up to the number of entries.
\<close>

theorem submit_picks_counts:
  assumes "submit_picks repr strptime week_str user all_data form schedule now =
             Inr (all_data', saved_count, blocked_count)"
  shows "saved_count + blocked_count = length (form_items form)
       \<and> (\<exists>kickoffs. game_start_times repr strptime schedule = Inr kickoffs
            \<and> saved_count = length (filter (\<lambda>(g, t). pick_open kickoffs now g) (form_items form))
            \<and> blocked_count = length (filter (\<lambda>(g, t). \<not> pick_open kickoffs now g) (form_items form)))"
proof -
  from assms obtain kickoffs where k: "game_start_times repr strptime schedule = Inr kickoffs"
    and l: "picks_loop kickoffs now week_str user all_data 0 0 (form_items form) =
              Inr (all_data', saved_count, blocked_count)"
    by (auto simp: submit_picks_def and_then_Inr_iff)
  from picks_loop_counts [OF l]
  have c: "saved_count = length (filter (\<lambda>(g, t). pick_open kickoffs now g) (form_items form))"
    "blocked_count = length (filter (\<lambda>(g, t). \<not> pick_open kickoffs now g) (form_items form))"
    by simp_all
  have "length (filter (\<lambda>(g, t). pick_open kickoffs now g) (form_items form))
        + length (filter (\<lambda>(g, t). \<not> pick_open kickoffs now g) (form_items form))
        = length (form_items form)"
    using sum_length_filter_compl [of "\<lambda>(g, t). pick_open kickoffs now g" "form_items form"]
    by (simp add: case_prod_unfold)
  with c k show ?thesis by auto
qed

theorem submit_picks_counts_witness:
  "submit_picks no_repr sample_strptime ''1'' ''alice'' alice_picks sample_form sample_schedule 1100 =
     Inr (alice_picks_earlier, 2, 1)
   \<and> (2::nat) + 1 = length (form_items sample_form)"
proof -
  have e: "submit_picks no_repr sample_strptime ''1'' ''alice'' alice_picks sample_form sample_schedule 1100 =
     Inr (alice_picks_earlier, 2, 1)"
    by (simp add: submit_picks_def sample_kickoffs sample_form_items
          sample_form_items [unfolded sample_form_def] sample_form_def pick_open_def
          store_pick_def alice_picks_def alice_picks_earlier_def)
  from submit_picks_counts [OF e] e show ?thesis by simp
qed


text \<open>
  Claim C1. When a logged-in user posts picks and the handler returns, then for every
  submitted entry: if the game has no kickoff in the map built from the fetched schedule,
  or the current time is strictly before its kickoff, the pick document on disk holds the
  submitted team for that week, user and game, whatever it held before; otherwise (the
  kickoff is now or in the past) it holds what it held before. A kickoff in the map comes
  from an event of the schedule with that id whose date parses to it, so a game absent
  from the schedule has none.
\<close>

theorem week_view_accepts_iff_open:
  assumes "session_user s = Some user"
    and "week_view repr strptime week POST form schedule now s = Inr (response, s')"
    and "(game_id, team) \<in> set (form_items form)"
  shows "\<exists>kickoffs. game_start_times repr strptime schedule = Inr kickoffs
           \<and> stored_pick (picks_on_disk s') (str_int (int week)) user game_id =
               (if map_of kickoffs game_id = None \<or> (\<exists>k. map_of kickoffs game_id = Some k \<and> now < k)
                then Some (JStr team)
                else stored_pick (picks_on_disk s) (str_int (int week)) user game_id)
           \<and> (\<forall>k. map_of kickoffs game_id = Some k \<longrightarrow>
                 (\<exists>event \<in> set (schedule_events schedule).
                    game_key repr event = Some game_id \<and> event_kickoff strptime event = Some k))"
proof -
  let ?w = "str_int (int week)"
  from week_view_loaded [OF assms(1) assms(2)] obtain d0 where
    ld: "load_json PICKS_FILE s = Inr d0"
    by blast
  from assms(2) week_view_post [OF assms(1) ld] load_picks [OF ld] obtain all_data d1 sv bl msg where
    e: "ensure_entries ?w user (picks_on_disk s) = Inr all_data"
    and sp: "submit_picks repr strptime ?w user all_data form schedule now = Inr (d1, sv, bl)"
    and s': "s' = flash msg (save_json PICKS_FILE d1 s)"
    by (auto simp: and_then_Inr_iff)
  from sp obtain kickoffs where k: "game_start_times repr strptime schedule = Inr kickoffs"
    and l: "picks_loop kickoffs now ?w user all_data 0 0 (form_items form) = Inr (d1, sv, bl)"
    by (auto simp: submit_picks_def and_then_Inr_iff)
  have o: "pick_open kickoffs now game_id \<longleftrightarrow>
             map_of kickoffs game_id = None \<or> (\<exists>k. map_of kickoffs game_id = Some k \<and> now < k)"
    by (auto simp: pick_open_def split: option.splits)
  from picks_loop_stored [OF l form_items_distinct, of game_id] form_items_lookup [OF assms(3)]
  have "stored_pick d1 ?w user game_id =
          (if pick_open kickoffs now game_id then Some (JStr team)
           else stored_pick all_data ?w user game_id)"
    by simp
  with ensure_entries_stored [OF e, of game_id] o s'
  have "stored_pick (picks_on_disk s') ?w user game_id =
               (if map_of kickoffs game_id = None \<or> (\<exists>k. map_of kickoffs game_id = Some k \<and> now < k)
                then Some (JStr team)
                else stored_pick (picks_on_disk s) ?w user game_id)"
    by (auto simp: picks_after_save)
  with k game_start_times_source [OF k] show ?thesis by blast
qed


theorem week_view_accepts_iff_open_witness:
  "session_user alice_before = Some ''alice''
   \<and> week_view no_repr sample_strptime 1 POST sample_form sample_schedule 1225 alice_before =
       Inr (Redirect ''/week/1'', alice_after)
   \<and> (''402'', ''3'') \<in> set (form_items sample_form)
   \<and> (''999'', ''5'') \<in> set (form_items sample_form)
   \<and> map_of [(''401'', 1020), (''402'', 1225 :: int)] ''402'' = Some 1225
   \<and> stored_pick (picks_on_disk alice_after) ''1'' ''alice'' ''402'' = None
   \<and> stored_pick (picks_on_disk alice_after) ''1'' ''alice'' ''999'' = Some (JStr ''5'')"
proof -
  have u: "session_user alice_before = Some ''alice''"
    by (simp add: alice_before_def)
  have ld: "load_json PICKS_FILE alice_before = Inr alice_picks"
    by (simp add: load_json_def alice_before_def)
  have p: "picks_on_disk alice_before = alice_picks"
    using ld by (rule load_picks)
  have en: "ensure_entries ''1'' ''alice'' alice_picks = Inr alice_picks"
    by (simp add: ensure_entries_def alice_picks_def)
  have sp: "submit_picks no_repr sample_strptime ''1'' ''alice'' alice_picks sample_form sample_schedule 1225 =
     Inr (alice_picks_later, 1, 2)"
    by (simp add: submit_picks_def sample_kickoffs sample_form_items
          sample_form_items [unfolded sample_form_def] sample_form_def pick_open_def
          store_pick_def alice_picks_def alice_picks_later_def)
  have r: "week_view no_repr sample_strptime 1 POST sample_form sample_schedule 1225 alice_before =
       Inr (Redirect ''/week/1'', alice_after)"
    apply (subst week_view_post [OF u ld])
    apply (simp add: str_int_1 en sp)
    apply (simp add: alice_after_def alice_before_def flash_def save_json_def)
    done
  have m1: "(''402'', ''3'') \<in> set (form_items sample_form)"
    and m2: "(''999'', ''5'') \<in> set (form_items sample_form)"
    by (simp_all add: sample_form_items [unfolded sample_form_def] sample_form_def)
  have before: "stored_pick (picks_on_disk alice_before) ''1'' ''alice'' ''402'' = None"
    by (simp add: p alice_picks_def stored_pick_def)
  from week_view_accepts_iff_open [OF u r m1] sample_kickoffs before
  have a: "stored_pick (picks_on_disk alice_after) ''1'' ''alice'' ''402'' = None"
    by (simp add: str_int_1)
  from week_view_accepts_iff_open [OF u r m2] sample_kickoffs
  have b: "stored_pick (picks_on_disk alice_after) ''1'' ''alice'' ''999'' = Some (JStr ''5'')"
    by (simp add: str_int_1)
  from u r m1 m2 a b show ?thesis by simp
qed

lemma ensure_entries_ready:
  assumes "well_formed_picks w u d0"
  shows "\<exists>kvs wkvs ukvs. ensure_entries w u d0 = Inr (JObj kvs)
           \<and> map_of kvs w = Some (JObj wkvs) \<and> map_of wkvs u = Some (JObj ukvs)"
proof -
  from assms obtain kvs where d0: "d0 = JObj kvs"
    by (cases d0) (auto simp: well_formed_picks_def)
  show ?thesis
  proof (cases "map_of kvs w")
    case None
    then have "w \<notin> fst ` set kvs" by (simp add: map_of_eq_None_iff)
    with d0 None show ?thesis
      by (simp add: ensure_entries_def update_conv')
  next
    case (Some wd)
    then have k: "w \<in> fst ` set kvs" by (rule map_of_Some_key)
    from assms d0 Some obtain wkvs where wd: "wd = JObj wkvs"
      by (cases wd) (auto simp: well_formed_picks_def)
    show ?thesis
    proof (cases "map_of wkvs u")
      case None
      then have "u \<notin> fst ` set wkvs" by (simp add: map_of_eq_None_iff)
      with d0 Some wd None k show ?thesis
        by (simp add: ensure_entries_def update_conv')
    next
      case (Some ud)
      then have ku: "u \<in> fst ` set wkvs" by (rule map_of_Some_key)
      from assms d0 \<open>map_of kvs w = Some wd\<close> wd Some obtain ukvs where "ud = JObj ukvs"
        by (cases ud) (auto simp: well_formed_picks_def is_dict_def)
      with d0 \<open>map_of kvs w = Some wd\<close> wd Some k ku show ?thesis
        by (simp add: ensure_entries_def)
    qed
  qed
qed

lemma picks_loop_ready:
  assumes "map_of kvs w = Some (JObj wkvs)" and "map_of wkvs u = Some (JObj ukvs)"
  shows "\<exists>kvs' wkvs' ukvs' sv' bl'.
           picks_loop gst now w u (JObj kvs) sv bl items = Inr (JObj kvs', sv', bl')
           \<and> map_of kvs' w = Some (JObj wkvs') \<and> map_of wkvs' u = Some (JObj ukvs')"
  using assms
proof (induction items arbitrary: kvs wkvs ukvs sv bl)
  case Nil
  then show ?case by simp
next
  case (Cons a items)
  obtain g t where a: "a = (g, t)" by (cases a)
  show ?case
  proof (cases "pick_open gst now g")
    case True
    let ?ukvs1 = "AList.update g (JStr t) ukvs"
    let ?wkvs1 = "AList.update u (JObj ?ukvs1) wkvs"
    let ?kvs1 = "AList.update w (JObj ?wkvs1) kvs"
    from Cons.prems have s: "store_pick w u g t (JObj kvs) = Inr (JObj ?kvs1)"
      by (simp add: store_pick_def)
    have "map_of ?kvs1 w = Some (JObj ?wkvs1)" "map_of ?wkvs1 u = Some (JObj ?ukvs1)"
      by (simp_all add: update_conv')
    from Cons.IH [OF this, of "sv + 1" bl] s True a show ?thesis
      by simp
  next
    case False
    from Cons.IH [OF Cons.prems, of sv "bl + 1"] False a show ?thesis
      by simp
  qed
qed

lemma start_times_loop_total:
  assumes "list_all (dated_event strptime) events"
  shows "\<exists>gst'. start_times_loop repr strptime gst events = Inr gst'"
  using assms
proof (induction events arbitrary: gst)
  case Nil
  then show ?case by simp
next
  case (Cons ev evs)
  from Cons.prems have "dated_event strptime ev" by simp
  then obtain gst1 where "start_time_step repr strptime gst ev = Inr gst1"
    by (auto simp: dated_event_def start_time_step_def split: sum.splits json.splits option.splits)
  with Cons show ?case by simp
qed

lemma game_start_times_total:
  assumes "dated_schedule strptime schedule"
  shows "\<exists>kickoffs. game_start_times repr strptime schedule = Inr kickoffs"
proof -
  from assms obtain kvs where s: "schedule = JObj kvs"
    by (cases schedule) (auto simp: dated_schedule_def)
  show ?thesis
  proof (cases "map_of kvs ''events''")
    case None
    with s show ?thesis by (simp add: game_start_times_def)
  next
    case (Some v)
    with assms s obtain events where "v = JArr events" "list_all (dated_event strptime) events"
      by (cases v) (auto simp: dated_schedule_def)
    with s Some start_times_loop_total [of strptime events repr "[]"] show ?thesis
      by (simp add: game_start_times_def)
  qed
qed


text \<open>
  Claim C9. For a logged-in user, a pick file that loads to a document mapping weeks to
  dicts of users to dicts, and a schedule whose events carry dates: a POST, whatever the
  submitted form (empty, or with every pick blocked), returns and hands exactly one
  document to \<open>save_json\<close>, after which the pick file loads to that document. The
  document is the whole pick document: the loaded one with the entries of the week and
  of the user created by lines 139 to 143 and the accepted picks merged in by the loop,
  so it holds an entry for the week with an entry for the user, the stored picks of every
  other week and user are as they were, and those of the user in the week change only
  where a submitted pick is open. A GET returns the view and leaves the state, pick file
  included, as it was.
\<close>

theorem week_view_post_saves_once:
  assumes "session_user s = Some user"
    and "load_json PICKS_FILE s = Inr loaded"
    and "well_formed_picks (str_int (int week)) user loaded"
    and "dated_schedule strptime schedule"
  shows "(\<exists>all_data kickoffs doc saved_count blocked_count week_data s'.
            ensure_entries (str_int (int week)) user loaded = Inr all_data
            \<and> game_start_times repr strptime schedule = Inr kickoffs
            \<and> picks_loop kickoffs now (str_int (int week)) user all_data 0 0 (form_items form) =
                Inr (doc, saved_count, blocked_count)
            \<and> s' = flash (if blocked_count > 0 then LockedMsg saved_count blocked_count
                          else SavedMsg week)
                     (save_json PICKS_FILE doc s)
            \<and> week_view repr strptime week POST form schedule now s =
                Inr (Redirect (''/week/'' @ str_int (int week)), s')
            \<and> saved s' = saved s @ [(PICKS_FILE, doc)]
            \<and> load_json PICKS_FILE s' = Inr doc
            \<and> getitem doc (str_int (int week)) = Inr week_data
            \<and> py_in user week_data = Inr True
            \<and> (\<forall>w u g. stored_pick doc w u g =
                  (if w = str_int (int week) \<and> u = user then
                     (case map_of (form_items form) g of
                        None \<Rightarrow> stored_pick loaded w u g
                      | Some team \<Rightarrow>
                          if pick_open kickoffs now g then Some (JStr team)
                          else stored_pick loaded w u g)
                   else stored_pick loaded w u g)))
       \<and> (\<exists>user_picks.
            week_view repr strptime week GET form schedule now s =
              Inr (RenderWeek week schedule user_picks now, s))"
proof -
  let ?w = "str_int (int week)"
  from ensure_entries_ready [OF assms(3)] obtain kvs wkvs ukvs where
    e: "ensure_entries ?w user loaded = Inr (JObj kvs)"
    and r: "map_of kvs ?w = Some (JObj wkvs)" "map_of wkvs user = Some (JObj ukvs)"
    by blast
  from game_start_times_total [OF assms(4)] obtain kickoffs where
    k: "game_start_times repr strptime schedule = Inr kickoffs"
    by blast
  from picks_loop_ready [OF r, of kickoffs now 0 0 "form_items form"]
  obtain kvs' wkvs' ukvs' sv bl where
    l: "picks_loop kickoffs now ?w user (JObj kvs) 0 0 (form_items form) = Inr (JObj kvs', sv, bl)"
    and r': "map_of kvs' ?w = Some (JObj wkvs')" "map_of wkvs' user = Some (JObj ukvs')"
    by blast
  let ?msg = "if bl > 0 then LockedMsg sv bl else SavedMsg week"
  let ?s' = "flash ?msg (save_json PICKS_FILE (JObj kvs') s)"
  have post: "week_view repr strptime week POST form schedule now s =
      Inr (Redirect (''/week/'' @ ?w), ?s')"
    by (simp add: week_view_post [OF assms(1) assms(2)] e submit_picks_def k l)
  have log: "saved ?s' = saved s @ [(PICKS_FILE, JObj kvs')]"
    by (simp add: flash_def save_json_def)
  have disk: "load_json PICKS_FILE ?s' = Inr (JObj kvs')"
    by (rule picks_saved)
  have "user \<in> fst ` set wkvs'"
    using r'(2) by (rule map_of_Some_key)
  with r' have entry: "getitem (JObj kvs') ?w = Inr (JObj wkvs')" "py_in user (JObj wkvs') = Inr True"
    by simp_all
  have whole: "stored_pick (JObj kvs') w u g =
                  (if w = ?w \<and> u = user then
                     (case map_of (form_items form) g of
                        None \<Rightarrow> stored_pick loaded w u g
                      | Some team \<Rightarrow>
                          if pick_open kickoffs now g then Some (JStr team)
                          else stored_pick loaded w u g)
                   else stored_pick loaded w u g)" for w u g
  proof (cases "w = ?w \<and> u = user")
    case True
    then have wu: "w = ?w" "u = user" by simp_all
    from picks_loop_stored [OF l form_items_distinct, of g] ensure_entries_keeps [OF e, of ?w user]
    show ?thesis unfolding wu by (simp split: option.splits)
  next
    case False
    then have "w \<noteq> ?w \<or> u \<noteq> user" by simp
    from picks_loop_frame [OF l this, of g] ensure_entries_keeps [OF e, of w u g] False
    show ?thesis by auto
  qed
  have get: "week_view repr strptime week GET form schedule now s =
      Inr (RenderWeek week schedule (JObj ukvs) now, s)"
    by (simp add: week_view_get [OF assms(1) assms(2)] e r)
  have "\<exists>all_data kickoffs doc saved_count blocked_count week_data s'.
            ensure_entries ?w user loaded = Inr all_data
            \<and> game_start_times repr strptime schedule = Inr kickoffs
            \<and> picks_loop kickoffs now ?w user all_data 0 0 (form_items form) =
                Inr (doc, saved_count, blocked_count)
            \<and> s' = flash (if blocked_count > 0 then LockedMsg saved_count blocked_count
                          else SavedMsg week)
                     (save_json PICKS_FILE doc s)
            \<and> week_view repr strptime week POST form schedule now s =
                Inr (Redirect (''/week/'' @ ?w), s')
            \<and> saved s' = saved s @ [(PICKS_FILE, doc)]
            \<and> load_json PICKS_FILE s' = Inr doc
            \<and> getitem doc ?w = Inr week_data
            \<and> py_in user week_data = Inr True
            \<and> (\<forall>w u g. stored_pick doc w u g =
                  (if w = ?w \<and> u = user then
                     (case map_of (form_items form) g of
                        None \<Rightarrow> stored_pick loaded w u g
                      | Some team \<Rightarrow>
                          if pick_open kickoffs now g then Some (JStr team)
                          else stored_pick loaded w u g)
                   else stored_pick loaded w u g))"
    using e k l post log disk entry whole
    by (intro exI [of _ "JObj kvs"] exI [of _ kickoffs] exI [of _ "JObj kvs'"] exI [of _ sv]
          exI [of _ bl] exI [of _ "JObj wkvs'"] exI [of _ ?s']) simp
  with get show ?thesis by blast
qed

theorem week_view_post_saves_once_witness:
  "session_user league_state = Some ''alice''
   \<and> load_json PICKS_FILE league_state = Inr league_picks
   \<and> well_formed_picks (str_int (int 1)) ''alice'' league_picks
   \<and> dated_schedule sample_strptime sample_schedule
   \<and> week_view no_repr sample_strptime 1 POST [(''401'', ''12'')] sample_schedule 1225 league_state =
       Inr (Redirect ''/week/1'', league_resaved)
   \<and> saved league_resaved = [(PICKS_FILE, league_picks)]
   \<and> (\<exists>doc. load_json PICKS_FILE league_resaved = Inr doc
         \<and> stored_pick doc ''1'' ''alice'' ''401'' = Some (JStr ''7'')
         \<and> stored_pick doc ''1'' ''bob'' ''402'' = Some (JStr ''3'')
         \<and> stored_pick doc ''2'' ''bob'' ''410'' = Some (JStr ''9''))
   \<and> (\<exists>user_picks.
        week_view no_repr sample_strptime 1 GET [(''401'', ''12'')] sample_schedule 1225 league_state =
          Inr (RenderWeek 1 sample_schedule user_picks 1225, league_state))"
proof -
  have u: "session_user league_state = Some ''alice''"
    by (simp add: league_state_def)
  have ld: "load_json PICKS_FILE league_state = Inr league_picks"
    by (simp add: load_json_def league_state_def)
  have w: "well_formed_picks (str_int (int 1)) ''alice'' league_picks"
    by (simp add: str_int_1 well_formed_picks_def league_picks_def is_dict_def)
  have d: "dated_schedule sample_strptime sample_schedule"
    by (simp add: dated_schedule_def sample_schedule_def dated_event_def sample_strptime_def)
  have en: "ensure_entries ''1'' ''alice'' league_picks = Inr league_picks"
    by (simp add: ensure_entries_def league_picks_def)
  have sp: "submit_picks no_repr sample_strptime ''1'' ''alice'' league_picks [(''401'', ''12'')]
              sample_schedule 1225 = Inr (league_picks, 0, 1)"
    by (simp add: submit_picks_def sample_kickoffs form_items_def pick_open_def)
  have r: "week_view no_repr sample_strptime 1 POST [(''401'', ''12'')] sample_schedule 1225 league_state =
       Inr (Redirect ''/week/1'', league_resaved)"
    apply (subst week_view_post [OF u ld])
    apply (simp add: str_int_1 en sp)
    apply (simp add: league_resaved_def league_state_def flash_def save_json_def)
    done
  have lg: "saved league_resaved = [(PICKS_FILE, league_picks)]"
    by (simp add: league_resaved_def)
  have before: "stored_pick league_picks ''1'' ''alice'' ''401'' = Some (JStr ''7'')"
    "stored_pick league_picks ''1'' ''bob'' ''402'' = Some (JStr ''3'')"
    "stored_pick league_picks ''2'' ''bob'' ''410'' = Some (JStr ''9'')"
    by (simp_all add: stored_pick_def league_picks_def)
  from week_view_post_saves_once [OF u ld w d, of no_repr 1225 "[(''401'', ''12'')]"]
  obtain kickoffs doc s' where
    k: "game_start_times no_repr sample_strptime sample_schedule = Inr kickoffs"
    and p: "week_view no_repr sample_strptime 1 POST [(''401'', ''12'')] sample_schedule 1225 league_state =
              Inr (Redirect (''/week/'' @ str_int (int 1)), s')"
    and l: "load_json PICKS_FILE s' = Inr doc"
    and f: "\<forall>w u g. stored_pick doc w u g =
                  (if w = str_int (int 1) \<and> u = ''alice'' then
                     (case map_of (form_items [(''401'', ''12'')]) g of
                        None \<Rightarrow> stored_pick league_picks w u g
                      | Some team \<Rightarrow>
                          if pick_open kickoffs 1225 g then Some (JStr team)
                          else stored_pick league_picks w u g)
                   else stored_pick league_picks w u g)"
    and g: "\<exists>user_picks.
        week_view no_repr sample_strptime 1 GET [(''401'', ''12'')] sample_schedule 1225 league_state =
          Inr (RenderWeek 1 sample_schedule user_picks 1225, league_state)"
    by blast
  from p r have s': "s' = league_resaved" by simp
  from k sample_kickoffs have ks: "kickoffs = [(''401'', 1020), (''402'', 1225)]" by simp
  from f before ks have
    "stored_pick doc ''1'' ''alice'' ''401'' = Some (JStr ''7'')"
    "stored_pick doc ''1'' ''bob'' ''402'' = Some (JStr ''3'')"
    "stored_pick doc ''2'' ''bob'' ''410'' = Some (JStr ''9'')"
    by (simp_all add: str_int_1 form_items_def pick_open_def)
  with l s' u ld w d r lg g show ?thesis by blast
qed

end
